theory Spec2Isabelle
  imports Main "HOL-Library.AList"
begin

text \<open>
  A model of \<^verbatim>\<open>src/index.js\<close> of node-run-cmd: the spawner \<^verbatim>\<open>run\<close>, which tokenizes a command
  line, spawns a child process and turns its events into callbacks and a promise, and the
  orchestrator \<^verbatim>\<open>runMultiple\<close>, which runs a batch of commands in sequence or in parallel.
  JavaScript values are a datatype, objects are lists of properties, exceptions are values,
  and what the program does between two events of the children is a function on the state of
  the batch. The operating system (the events of each child and the order in which they
  arrive) is a parameter of the model.
\<close>

section \<open>JavaScript values\<close>

text \<open>
  A JavaScript string is a sequence of UTF-16 code units; a code unit is modelled as a
  natural number (a number above 65535 stands for no code unit and is treated like an
  ordinary character). Property names are ASCII in \<^verbatim>\<open>src/index.js\<close> and are kept as HOL
  strings.
\<close>

type_synonym jsstr = "nat list"

definition js :: "string \<Rightarrow> jsstr" where
  "js s = map of_char s"

text \<open>
  Function values are opaque: \<open>ConsoleLog\<close> is \<^verbatim>\<open>console.log\<close>, \<open>UserFn n\<close> a function supplied by
  the caller. Calling one is recorded as an effect; it returns \<^verbatim>\<open>undefined\<close> and does not throw.
  Numbers are the integers (exit codes); \<open>TypeError\<close> is the exception object the runtime throws
  when a property of \<^verbatim>\<open>undefined\<close>/\<^verbatim>\<open>null\<close> is read or a non-function is called. An object is the
  list of its own enumerable properties; the first binding of a name is its value.
\<close>

datatype fn = ConsoleLog | UserFn nat

datatype jsval =
    Undefined
  | Null
  | Bool bool
  | Num int
  | Str jsstr
  | Fn fn
  | TypeError
  | Obj "(string \<times> jsval) list"
  | Arr "jsval list"

type_synonym jsobj = "(string \<times> jsval) list"

fun typeof :: "jsval \<Rightarrow> string" where
  "typeof Undefined = ''undefined''"
| "typeof Null = ''object''"
| "typeof (Bool b) = ''boolean''"
| "typeof (Num n) = ''number''"
| "typeof (Str s) = ''string''"
| "typeof (Fn f) = ''function''"
| "typeof TypeError = ''object''"
| "typeof (Obj kvs) = ''object''"
| "typeof (Arr xs) = ''object''"

fun truthy :: "jsval \<Rightarrow> bool" where
  "truthy Undefined = False"
| "truthy Null = False"
| "truthy (Bool b) = b"
| "truthy (Num n) = (n \<noteq> 0)"
| "truthy (Str s) = (s \<noteq> [])"
| "truthy (Fn f) = True"
| "truthy TypeError = True"
| "truthy (Obj kvs) = True"
| "truthy (Arr xs) = True"

text \<open>\<^verbatim>\<open>Object.prototype.toString.call(v) === '[object Array]'\<close>\<close>

fun is_array :: "jsval \<Rightarrow> bool" where
  "is_array (Arr xs) = True"
| "is_array v = False"

text \<open>The elements of an array, in index order.\<close>

fun elements :: "jsval \<Rightarrow> jsval list" where
  "elements (Arr xs) = xs"
| "elements v = []"

text \<open>Property read \<^verbatim>\<open>o[k]\<close>: a missing property reads as \<^verbatim>\<open>undefined\<close>.\<close>

definition get :: "jsobj \<Rightarrow> string \<Rightarrow> jsval" where
  "get obj k = (case map_of obj k of Some v \<Rightarrow> v | None \<Rightarrow> Undefined)"

text \<open>Property write \<^verbatim>\<open>o[k] = v\<close>.\<close>

definition put :: "string \<Rightarrow> jsval \<Rightarrow> jsobj \<Rightarrow> jsobj" where
  "put k v obj = AList.update k v obj"

text \<open>Decimal text of an array index, as used for the property names of arrays and strings.\<close>

definition digit :: "nat \<Rightarrow> char" where
  "digit d = char_of (48 + d)"

function string_of_nat :: "nat \<Rightarrow> string" where
  "string_of_nat n =
     (if n < 10 then [digit n] else string_of_nat (n div 10) @ [digit (n mod 10)])"
  by pat_completeness auto
termination
  by (relation "measure id") auto

declare string_of_nat.simps [simp del]

text \<open>
  The own enumerable properties that \<^verbatim>\<open>Object.assign\<close> copies from a source: the properties of
  an object, the indexed elements of an array, the indexed characters of a string, and nothing
  for \<^verbatim>\<open>undefined\<close>, \<^verbatim>\<open>null\<close>, booleans, numbers, functions and error objects.
\<close>

fun own_props :: "jsval \<Rightarrow> jsobj" where
  "own_props (Obj kvs) = kvs"
| "own_props (Arr xs) = zip (map string_of_nat [0..<length xs]) xs"
| "own_props (Str s) = zip (map string_of_nat [0..<length s]) (map (\<lambda>c. Str [c]) s)"
| "own_props v = []"

text \<open>
  \<^verbatim>\<open>Object.assign(target, ...sources)\<close>: for every source in turn and every own enumerable
  property name of it, \<^verbatim>\<open>target[key] = source[key]\<close>.
\<close>

definition assign1 :: "jsval \<Rightarrow> jsobj \<Rightarrow> jsobj" where
  "assign1 src target =
     fold (\<lambda>key t. put key (get (own_props src) key) t) (map fst (own_props src)) target"

definition Object_assign :: "jsobj \<Rightarrow> jsval list \<Rightarrow> jsobj" where
  "Object_assign target sources = fold assign1 sources target"

section \<open>Tokenization of a command line\<close>

text \<open>
  The command is split by \<^verbatim>\<open>command.match(/[^"\s]+|"(?:\\"|[^"])+"/g)\<close>. The class \<^verbatim>\<open>\s\<close> is the
  white space and line terminators of ECMAScript: TAB, LF, VT, FF, CR, SPACE, U+00A0, U+1680,
  U+2000 to U+200A, U+2028, U+2029, U+202F, U+205F, U+3000 and U+FEFF.
\<close>

definition dquote :: nat where
  "dquote = 34"

definition backslash :: nat where
  "backslash = 92"

definition is_space :: "nat \<Rightarrow> bool" where
  "is_space c \<longleftrightarrow>
     c = 9 \<or> c = 10 \<or> c = 11 \<or> c = 12 \<or> c = 13 \<or> c = 32 \<or> c = 160 \<or> c = 5760 \<or>
     (8192 \<le> c \<and> c \<le> 8202) \<or> c = 8232 \<or> c = 8233 \<or> c = 8239 \<or> c = 8287 \<or>
     c = 12288 \<or> c = 65279"

text \<open>The class \<^verbatim>\<open>[^"\s]\<close>.\<close>

definition plain :: "nat \<Rightarrow> bool" where
  "plain c \<longleftrightarrow> c \<noteq> dquote \<and> \<not> is_space c"

text \<open>
  The part \<^verbatim>\<open>(?:\\"|[^"])+"\<close> of the second alternative, tried by backtracking as the regular
  expression engine does: at each repetition the escaped quote \<^verbatim>\<open>\\"\<close> is tried first, then
  any character but a quote; when neither leads to a match the repetition ends (if it has
  run at least once, flag \<open>started\<close>) and the closing quote must follow. The result is the
  number of characters consumed, the closing quote included.
\<close>

fun body :: "bool \<Rightarrow> jsstr \<Rightarrow> nat option" where
  "body started [] = None"
| "body started (c # cs) =
     (if c = dquote then (if started then Some 1 else None)
      else
        (case (if c = backslash
               then (case cs of
                       [] \<Rightarrow> None
                     | d # ds \<Rightarrow> if d = dquote then map_option (\<lambda>n. n + 2) (body True ds) else None)
               else None) of
           Some n \<Rightarrow> Some n
         | None \<Rightarrow> map_option Suc (body True cs)))"

text \<open>
  One attempt of the whole expression at the start of \<open>s\<close>: the first alternative
  \<^verbatim>\<open>[^"\s]+\<close> is greedy and nothing follows it, so it takes the longest run; otherwise the
  second alternative needs an opening quote. The result is the length of the match.
\<close>

definition match_at :: "jsstr \<Rightarrow> nat option" where
  "match_at s =
     (if takeWhile plain s \<noteq> [] then Some (length (takeWhile plain s))
      else (case s of
              [] \<Rightarrow> None
            | c # cs \<Rightarrow> if c = dquote then map_option Suc (body False cs) else None))"

text \<open>
  The global scan: where the expression matches, the match is taken and the scan goes on
  behind it; where it does not, the scan moves one character on.
\<close>

datatype seg = Tok jsstr | Skip nat

function scan :: "jsstr \<Rightarrow> seg list" where
  "scan [] = []"
| "scan (c # cs) =
     (case match_at (c # cs) of
        None \<Rightarrow> Skip c # scan cs
      | Some n \<Rightarrow> Tok (take n (c # cs)) # scan (drop (n - 1) cs))"
  by pat_completeness auto
termination
  by (relation "measure length") (auto simp: less_Suc_eq_le)

fun toks :: "seg list \<Rightarrow> jsstr list" where
  "toks [] = []"
| "toks (Tok m # segs) = m # toks segs"
| "toks (Skip c # segs) = toks segs"

text \<open>\<^verbatim>\<open>s.match(re)\<close> with the global flag: all matches, or \<^verbatim>\<open>null\<close> when there is none.\<close>

definition match_all :: "jsstr \<Rightarrow> jsstr list option" where
  "match_all s = (case toks (scan s) of [] \<Rightarrow> None | m # ms \<Rightarrow> Some (m # ms))"

text \<open>
  \<^verbatim>\<open>expr.charAt(0) === '"' && expr.charAt(expr.length - 1) === '"' ? expr.slice(1, -1) : expr\<close>
\<close>

definition unquote :: "jsstr \<Rightarrow> jsstr" where
  "unquote expr =
     (if expr \<noteq> [] \<and> hd expr = dquote \<and> last expr = dquote then butlast (tl expr) else expr)"

datatype 'a thrown = Throw jsval | Ok 'a

text \<open>
  \<^verbatim>\<open>options.command.match(...).map(...)\<close>, then \<^verbatim>\<open>cmds[0]\<close> and \<^verbatim>\<open>cmds.shift()\<close>. A command that is
  not a string has no \<^verbatim>\<open>match\<close> method that returns an array, and a string without a match
  gives \<^verbatim>\<open>null\<close>: both throw a TypeError.
\<close>

definition tokenize :: "jsval \<Rightarrow> (jsstr \<times> jsstr list) thrown" where
  "tokenize command =
     (case command of
        Str s \<Rightarrow>
          (case match_all s of
             None \<Rightarrow> Throw TypeError
           | Some ms \<Rightarrow>
               (case map unquote ms of
                  [] \<Rightarrow> Throw TypeError
                | runCMD # cmds \<Rightarrow> Ok (runCMD, cmds)))
      | _ \<Rightarrow> Throw TypeError)"

section \<open>The spawner: \<^verbatim>\<open>run(options)\<close>\<close>

text \<open>
  The operating system is a parameter. \<^verbatim>\<open>spawn(runCMD, cmds, spawnProcessOpts)\<close> returns a child
  with a stdout and a stderr stream and does not throw; what the child does is the list of
  events it will emit, in the order the listeners receive them. The first argument numbers
  the command within the batch, so that two equal commands may behave differently. A data
  chunk is a \<^verbatim>\<open>Buffer\<close> (an object, hence truthy in \<^verbatim>\<open>if (data)\<close>), given here by its text
  \<^verbatim>\<open>data.toString()\<close>.
\<close>

datatype proc_event = Stdout jsstr | Stderr jsstr | Close jsval | Error jsval

type_synonym os = "nat \<Rightarrow> jsstr \<Rightarrow> jsstr list \<Rightarrow> jsobj \<Rightarrow> proc_event list"

text \<open>
  The text handed to the logger: \<open>Text s\<close> is the string \<open>s\<close>; \<open>Coerced p v\<close> is \<^verbatim>\<open>p + v\<close> for a
  value \<open>v\<close> that is not a string, whose conversion to text is left open.
\<close>

datatype logtext = Text jsstr | Coerced jsstr jsval

definition str_plus :: "jsstr \<Rightarrow> jsval \<Rightarrow> logtext" where
  "str_plus p v = (case v of Str s \<Rightarrow> Text (p @ s) | _ \<Rightarrow> Coerced p v)"

text \<open>
  What the program does that can be observed from outside, in the order it does it:
  \<open>Dispatch\<close> marks the call \<^verbatim>\<open>run(resolvedOpts)\<close>, \<open>Log\<close> a call of \<^verbatim>\<open>options.logger\<close>, \<open>Spawn\<close> the call
  of \<^verbatim>\<open>spawn\<close>, \<open>OnData\<close>, \<open>OnError\<close> and \<open>OnDone\<close> the calls of the callbacks with their arguments,
  \<open>Resolve\<close> a call of the promise's \<^verbatim>\<open>resolve\<close>, \<open>Reject\<close> the rejection of the promise by an
  exception thrown in its executor, and \<open>Uncaught\<close> an exception thrown inside a listener.
  An effect is tagged with the position of the command it belongs to.
\<close>

datatype action =
    Dispatch jsobj
  | Log fn logtext
  | Spawn jsstr "jsstr list" jsobj
  | OnData fn jsstr
  | OnError fn jsstr
  | OnDone fn "jsval list"
  | Resolve jsval
  | Reject jsval
  | Uncaught jsval

type_synonym effect = "nat \<times> action"

datatype pstate = Pending | Resolved jsval | Rejected jsval

text \<open>
  A dispatched command: the state of the promise \<^verbatim>\<open>run\<close> returned, the \<^verbatim>\<open>options\<close> object its
  listeners close over, and the events of its child that are still to come (none when no
  child was spawned).
\<close>

record task =
  promise :: pstate
  opts :: jsobj
  pending :: "proc_event list"

definition spawnOptsAllowedKeys :: "string list" where
  "spawnOptsAllowedKeys = [''cwd'', ''env'', ''stdio'', ''detached'', ''uid'', ''gid'', ''shell'']"

text \<open>
  \<^verbatim>\<open>for (const key in options) if (spawnOptsAllowedKeys.indexOf(key) > -1)
     spawnProcessOpts[key] = options[key];\<close>
\<close>

definition spawnProcessOpts :: "jsobj \<Rightarrow> jsobj" where
  "spawnProcessOpts options =
     fold (\<lambda>key acc. if key \<in> set spawnOptsAllowedKeys then put key (get options key) acc else acc)
       (map fst options) []"

text \<open>\<^verbatim>\<open>if (typeof v === 'function') v(...)\<close>\<close>

fun if_function :: "jsval \<Rightarrow> (fn \<Rightarrow> action) \<Rightarrow> action list" where
  "if_function (Fn f) call = [call f]"
| "if_function v call = []"

text \<open>
  \<^verbatim>\<open>if (options.verbose) options.logger(text)\<close>: calling a logger that is not a function
  throws a TypeError.
\<close>

definition log_if_verbose :: "jsobj \<Rightarrow> logtext \<Rightarrow> action list thrown" where
  "log_if_verbose options text =
     (if truthy (get options ''verbose'')
      then (case get options ''logger'' of Fn f \<Rightarrow> Ok [Log f text] | _ \<Rightarrow> Throw TypeError)
      else Ok [])"

text \<open>
  The executor of the promise, up to the registration of the listeners. An exception thrown
  in it rejects the promise, and no child is spawned.
\<close>

definition run :: "os \<Rightarrow> nat \<Rightarrow> jsobj \<Rightarrow> action list \<times> task" where
  "run os i options =
     (case log_if_verbose options (str_plus (js ''$ '') (get options ''command'')) of
        Throw e \<Rightarrow> ([Reject e], \<lparr>promise = Rejected e, opts = options, pending = []\<rparr>)
      | Ok logged \<Rightarrow>
          (case tokenize (get options ''command'') of
             Throw e \<Rightarrow> (logged @ [Reject e], \<lparr>promise = Rejected e, opts = options, pending = []\<rparr>)
           | Ok (runCMD, cmds) \<Rightarrow>
               (logged @ [Spawn runCMD cmds (spawnProcessOpts options)],
                \<lparr>promise = Pending, opts = options,
                 pending = os i runCMD cmds (spawnProcessOpts options)\<rparr>)))"

text \<open>
  The four listeners, by the event they are registered for. An exception thrown inside a
  listener would not be caught by anyone; the invariant of a batch shows that this does not
  happen, since the logger of a verbose command has been called once before its child was
  spawned.
\<close>

fun listener :: "jsobj \<Rightarrow> proc_event \<Rightarrow> action list" where
  "listener options (Stdout data) =
     (case log_if_verbose options (Text data) of
        Throw e \<Rightarrow> [Uncaught e]
      | Ok logged \<Rightarrow> logged @ if_function (get options ''onData'') (\<lambda>f. OnData f data))"
| "listener options (Stderr data) =
     (case log_if_verbose options (Text data) of
        Throw e \<Rightarrow> [Uncaught e]
      | Ok logged \<Rightarrow> logged @ if_function (get options ''onError'') (\<lambda>f. OnError f data))"
| "listener options (Close code) =
     if_function (get options ''onDone'') (\<lambda>f. OnDone f [code]) @ [Resolve code]"
| "listener options (Error code) =
     if_function (get options ''onDone'') (\<lambda>f. OnDone f [code, Bool True]) @ [Resolve code]"

text \<open>A call of \<^verbatim>\<open>resolve\<close> settles a pending promise and leaves a settled one as it is.\<close>

fun settle :: "pstate \<Rightarrow> action \<Rightarrow> pstate" where
  "settle Pending (Resolve v) = Resolved v"
| "settle p a = p"

text \<open>The next event of a child reaches its listener.\<close>

definition deliver :: "task \<Rightarrow> action list \<times> task" where
  "deliver t =
     (case pending t of
        [] \<Rightarrow> ([], t)
      | e # es \<Rightarrow>
          (listener (opts t) e,
           t\<lparr>promise := fold (\<lambda>a p. settle p a) (listener (opts t) e) (promise t), pending := es\<rparr>))"

section \<open>The orchestrator: \<^verbatim>\<open>runMultiple(input, options)\<close>\<close>

definition SEQUENTIAL :: jsstr where
  "SEQUENTIAL = js ''sequential''"

definition PARALLEL :: jsstr where
  "PARALLEL = js ''parallel''"

definition DEFAULT_VERBOSE :: bool where
  "DEFAULT_VERBOSE = False"

text \<open>\<open>cwd\<close> is the value of \<^verbatim>\<open>process.cwd()\<close> when \<^verbatim>\<open>runMultiple\<close> is called.\<close>

definition defaultOpts :: "jsstr \<Rightarrow> jsobj" where
  "defaultOpts cwd =
     [(''cwd'', Str cwd), (''verbose'', Bool DEFAULT_VERBOSE), (''mode'', Str SEQUENTIAL),
      (''logger'', Fn ConsoleLog)]"

definition globalOpts_of :: "jsstr \<Rightarrow> jsval \<Rightarrow> jsobj" where
  "globalOpts_of cwd options = Object_assign [] [Obj (defaultOpts cwd), options]"

text \<open>
  The shape check and the normalisation of \<^verbatim>\<open>commands\<close>; \<open>None\<close> is the branch that rejects
  with \<^verbatim>\<open>'Invalid input'\<close>.
\<close>

definition wrap :: "jsval \<Rightarrow> jsval" where
  "wrap cmd = (if typeof cmd = ''object'' then cmd else Obj [(''command'', cmd)])"

definition normalize_commands :: "jsval \<Rightarrow> jsval list option" where
  "normalize_commands input =
     (let commands = (if typeof input = ''string'' then Arr [Obj [(''command'', input)]] else input)
      in if truthy commands \<and> typeof commands = ''object''
         then Some (if \<not> is_array commands then [commands] else map wrap (elements commands))
         else None)"

text \<open>
  \<^verbatim>\<open>const resolvedOpts = Object.assign({}, globalOpts, cmd); run(resolvedOpts)\<close> for the command
  at position \<open>i\<close>.
\<close>

definition resolvedOpts :: "jsobj \<Rightarrow> jsval \<Rightarrow> jsobj" where
  "resolvedOpts globalOpts cmd = Object_assign [] [Obj globalOpts, cmd]"

definition dispatch :: "os \<Rightarrow> jsobj \<Rightarrow> nat \<Rightarrow> jsval \<Rightarrow> effect list \<times> task" where
  "dispatch os globalOpts i cmd =
     (case run os i (resolvedOpts globalOpts cmd) of
        (acts, t) \<Rightarrow> (map (Pair i) (Dispatch (resolvedOpts globalOpts cmd) # acts), t))"

text \<open>
  The state of a batch between two events: the commands dispatched so far, in dispatch
  order; in sequential mode the commands the generator has still to reach and its \<^verbatim>\<open>results\<close>
  array; the promise \<^verbatim>\<open>runMultiple\<close> returned; the effects so far; the mode test and the global
  options the closures hold.
\<close>

record state =
  tasks :: "task list"
  queue :: "jsval list"
  results :: "jsval list"
  batch :: pstate
  trace :: "effect list"
  parallel :: bool
  globalOpts :: jsobj

text \<open>Parallel mode: \<^verbatim>\<open>commands.map(cmd => run(Object.assign({}, globalOpts, cmd)))\<close>.\<close>

fun dispatch_all :: "os \<Rightarrow> jsobj \<Rightarrow> nat \<Rightarrow> jsval list \<Rightarrow> effect list \<times> task list" where
  "dispatch_all os g i [] = ([], [])"
| "dispatch_all os g i (cmd # cmds) =
     (case dispatch os g i cmd of
        (es, t) \<Rightarrow> (case dispatch_all os g (Suc i) cmds of (es', ts) \<Rightarrow> (es @ es', t # ts)))"

text \<open>
  \<^verbatim>\<open>Promise.all(promises)\<close> as a function of the promises' states: rejected with the reason of
  the first rejected promise, else resolved with the array of all values once every promise
  is resolved.
\<close>

fun first_rejected :: "task list \<Rightarrow> jsval option" where
  "first_rejected [] = None"
| "first_rejected (t # ts) = (case promise t of Rejected e \<Rightarrow> Some e | _ \<Rightarrow> first_rejected ts)"

fun all_values :: "task list \<Rightarrow> jsval list option" where
  "all_values [] = Some []"
| "all_values (t # ts) =
     (case promise t of
        Resolved v \<Rightarrow> map_option (Cons v) (all_values ts)
      | _ \<Rightarrow> None)"

definition promise_all :: "task list \<Rightarrow> pstate" where
  "promise_all ts =
     (case first_rejected ts of
        Some e \<Rightarrow> Rejected e
      | None \<Rightarrow> (case all_values ts of Some vs \<Rightarrow> Resolved (Arr vs) | None \<Rightarrow> Pending))"

text \<open>
  Sequential mode: the generator runs to its next \<^verbatim>\<open>yield\<close>. With no command left it calls
  \<^verbatim>\<open>resolve(results)\<close> (\<^verbatim>\<open>results\<close> is an array, hence truthy, and the branch
  \<^verbatim>\<open>reject('Falsy value in results')\<close> is never taken); else it dispatches the next command and
  waits for its promise, and when \<^verbatim>\<open>run\<close> has thrown, the rejection is thrown into the
  generator, caught, and passed to \<^verbatim>\<open>reject\<close>. The loop \<^verbatim>\<open>for (const i in commands)\<close> visits the
  indices of the array in ascending order (\<^verbatim>\<open>Array.prototype\<close> has no enumerable property).
\<close>

definition seq_next :: "os \<Rightarrow> state \<Rightarrow> state" where
  "seq_next os s =
     (case queue s of
        [] \<Rightarrow> s\<lparr>batch := Resolved (Arr (results s))\<rparr>
      | cmd # cmds \<Rightarrow>
          (case dispatch os (globalOpts s) (length (tasks s)) cmd of
             (es, t) \<Rightarrow>
               s\<lparr>tasks := tasks s @ [t], queue := cmds, trace := trace s @ es,
                 batch := (case promise t of Rejected e \<Rightarrow> Rejected e | _ \<Rightarrow> batch s)\<rparr>))"

text \<open>The synchronous part of \<^verbatim>\<open>runMultiple\<close>, up to its return.\<close>

definition runMultiple :: "os \<Rightarrow> jsstr \<Rightarrow> jsval \<Rightarrow> jsval \<Rightarrow> state" where
  "runMultiple os cwd input options =
     (let g = globalOpts_of cwd options in
      case normalize_commands input of
        None \<Rightarrow>
          \<lparr>tasks = [], queue = [], results = [], batch = Rejected (Str (js ''Invalid input'')),
           trace = [], parallel = (get g ''mode'' = Str PARALLEL), globalOpts = g\<rparr>
      | Some commands \<Rightarrow>
          if get g ''mode'' = Str PARALLEL
          then (case dispatch_all os g 0 commands of
                  (es, ts) \<Rightarrow>
                    \<lparr>tasks = ts, queue = [], results = [], batch = promise_all ts,
                     trace = es, parallel = True, globalOpts = g\<rparr>)
          else seq_next os
                 \<lparr>tasks = [], queue = commands, results = [], batch = Pending,
                  trace = [], parallel = False, globalOpts = g\<rparr>)"

text \<open>
  One event: the child of the command at position \<open>k\<close> emits its next event, and the listener
  registered for it runs.
\<close>

definition emit :: "nat \<Rightarrow> state \<Rightarrow> state" where
  "emit k s =
     (case deliver (tasks s ! k) of
        (acts, t) \<Rightarrow> s\<lparr>tasks := (tasks s)[k := t], trace := trace s @ map (Pair k) acts\<rparr>)"

text \<open>
  Nothing happens when there is no command at position \<open>k\<close> (a child without an event left
  emits nothing). If the listener resolved the promise of \<open>k\<close>, the continuation waiting for
  it runs before any other event: in parallel mode \<^verbatim>\<open>Promise.all\<close> looks at all promises, in
  sequential mode the generator pushes the value onto \<^verbatim>\<open>results\<close> and goes on. A settled
  batch promise stays as it is.
\<close>

definition step :: "os \<Rightarrow> nat \<Rightarrow> state \<Rightarrow> state" where
  "step os k s =
     (if k < length (tasks s) then
        (let s' = emit k s in
         if parallel s then
           s'\<lparr>batch := (if batch s = Pending then promise_all (tasks s') else batch s)\<rparr>
         else
           (case (promise (tasks s ! k), promise (tasks s' ! k)) of
              (Pending, Resolved v) \<Rightarrow> seq_next os (s'\<lparr>results := results s @ [v]\<rparr>)
            | _ \<Rightarrow> s'))
      else s)"

text \<open>
  A schedule is the order in which the children's events arrive: the positions of the
  commands whose child emits next. \<open>execute\<close> is the state of the batch after the schedule.
\<close>

definition execute :: "os \<Rightarrow> jsstr \<Rightarrow> jsval \<Rightarrow> jsval \<Rightarrow> nat list \<Rightarrow> state" where
  "execute os cwd input options schedule = fold (step os) schedule (runMultiple os cwd input options)"

section \<open>Shapes of tokens\<close>







section \<open>Outcomes of a command\<close>

text \<open>
  The value carried by the first \<^verbatim>\<open>close\<close> or \<^verbatim>\<open>error\<close> event among the events of a child, if
  there is one.
\<close>

fun first_exit :: "proc_event list \<Rightarrow> jsval option" where
  "first_exit [] = None"
| "first_exit (Close code # es) = Some code"
| "first_exit (Error code # es) = Some code"
| "first_exit (e # es) = first_exit es"

text \<open>
  The state the promise of a dispatched command reaches once all events of its child have
  arrived.
\<close>

definition eventual :: "task \<Rightarrow> pstate" where
  "eventual t =
     (case promise t of
        Pending \<Rightarrow> (case first_exit (pending t) of Some v \<Rightarrow> Resolved v | None \<Rightarrow> Pending)
      | p \<Rightarrow> p)"

text \<open>
  A resolved option set with which \<^verbatim>\<open>run\<close> reaches \<^verbatim>\<open>spawn\<close>: if it is verbose its logger is a
  function, and its command is a string with at least one token.
\<close>

definition runnable :: "jsobj \<Rightarrow> bool" where
  "runnable options \<longleftrightarrow>
     (truthy (get options ''verbose'') \<longrightarrow> typeof (get options ''logger'') = ''function'') \<and>
     (case get options ''command'' of Str s \<Rightarrow> toks (scan s) \<noteq> [] | _ \<Rightarrow> False)"

text \<open>The values of the resolved promises among the dispatched commands, in dispatch order.\<close>

fun vals :: "task list \<Rightarrow> jsval list" where
  "vals [] = []"
| "vals (t # ts) = (case promise t of Resolved v \<Rightarrow> v # vals ts | _ \<Rightarrow> vals ts)"

text \<open>The dispatches recorded in a trace, in the order they happened.\<close>

fun dispatches :: "effect list \<Rightarrow> (nat \<times> jsobj) list" where
  "dispatches [] = []"
| "dispatches ((i, Dispatch ro) # tr) = (i, ro) # dispatches tr"
| "dispatches (e # tr) = dispatches tr"

text \<open>
  A trace is in order when every dispatch of a command other than the first comes after a
  call of \<^verbatim>\<open>resolve\<close> for the command before it.
\<close>

definition in_order :: "effect list \<Rightarrow> bool" where
  "in_order tr \<longleftrightarrow>
     (\<forall>j < length tr. \<forall>i ro. tr ! j = (Suc i, Dispatch ro) \<longrightarrow>
        (\<exists>v. (i, Resolve v) \<in> set (take j tr)))"

section \<open>Invariant of a batch\<close>

text \<open>
  What holds of the task at position \<open>i\<close> throughout: it carries the options resolved for the
  \<open>i\<close>-th command, its promise ends where the promise \<^verbatim>\<open>run\<close> returned for these options ends, it
  has no more events to come than its child had at the start, and only a command that reached
  \<^verbatim>\<open>spawn\<close> has events to come.
\<close>

definition task_inv :: "os \<Rightarrow> jsobj \<Rightarrow> jsval list \<Rightarrow> nat \<Rightarrow> task \<Rightarrow> bool" where
  "task_inv os g cmds i t \<longleftrightarrow>
     opts t = resolvedOpts g (cmds ! i) \<and>
     eventual t = eventual (snd (run os i (resolvedOpts g (cmds ! i)))) \<and>
     length (pending t) \<le> length (pending (snd (run os i (resolvedOpts g (cmds ! i))))) \<and>
     (pending t \<noteq> [] \<longrightarrow> runnable (opts t))"

text \<open>
  What holds of the state of a batch over the commands \<open>cmds\<close> with global options \<open>g\<close>, after
  the synchronous part of \<^verbatim>\<open>runMultiple\<close> and after every event. In both modes: the tasks are
  those of the first commands, a resolved promise has its call of \<^verbatim>\<open>resolve\<close> in the trace, the
  dispatches in the trace are those of the tasks in order, and no listener has thrown.
\<close>

definition inv_common :: "os \<Rightarrow> jsobj \<Rightarrow> jsval list \<Rightarrow> state \<Rightarrow> bool" where
  "inv_common os g cmds s \<longleftrightarrow>
     globalOpts s = g \<and>
     length (tasks s) \<le> length cmds \<and>
     (\<forall>i < length (tasks s). task_inv os g cmds i (tasks s ! i)) \<and>
     (\<forall>i < length (tasks s). \<forall>v. promise (tasks s ! i) = Resolved v \<longrightarrow> (i, Resolve v) \<in> set (trace s)) \<and>
     dispatches (trace s) = map (\<lambda>i. (i, resolvedOpts g (cmds ! i))) [0..<length (tasks s)] \<and>
     (\<forall>i u. (i, Uncaught u) \<notin> set (trace s))"

text \<open>In parallel mode every command has its task and the batch promise is \<^verbatim>\<open>Promise.all\<close>.\<close>

definition inv_par :: "jsval list \<Rightarrow> state \<Rightarrow> bool" where
  "inv_par cmds s \<longleftrightarrow>
     length (tasks s) = length cmds \<and> queue s = [] \<and> batch s = promise_all (tasks s)"

text \<open>
  In sequential mode the commands not yet dispatched wait in the queue, all tasks but the
  last are resolved and \<^verbatim>\<open>results\<close> holds their values, the trace is in order, and the batch
  promise follows the last task.
\<close>

definition inv_seq :: "jsval list \<Rightarrow> state \<Rightarrow> bool" where
  "inv_seq cmds s \<longleftrightarrow>
     queue s = drop (length (tasks s)) cmds \<and>
     results s = vals (tasks s) \<and>
     (\<forall>i. Suc i < length (tasks s) \<longrightarrow> (\<exists>v. promise (tasks s ! i) = Resolved v)) \<and>
     in_order (trace s) \<and>
     (if tasks s = [] then cmds = [] \<and> batch s = Resolved (Arr [])
      else (case promise (last (tasks s)) of
              Pending \<Rightarrow> batch s = Pending
            | Rejected e \<Rightarrow> batch s = Rejected e
            | Resolved v \<Rightarrow> queue s = [] \<and> batch s = Resolved (Arr (results s))))"

definition batch_inv :: "os \<Rightarrow> jsobj \<Rightarrow> jsval list \<Rightarrow> state \<Rightarrow> bool" where
  "batch_inv os g cmds s \<longleftrightarrow>
     inv_common os g cmds s \<and> (if parallel s then inv_par cmds s else inv_seq cmds s)"



section \<open>A batch of two commands\<close>

text \<open>
  The batch used to try the theorems on: the command \<^verbatim>\<open>a\<close> as a descriptor with its own
  working directory and an \<^verbatim>\<open>onData\<close> callback, and the command \<^verbatim>\<open>b\<close> as a string; global
  options with a working directory and a mode. The child of the first command writes \<^verbatim>\<open>1\<close>
  and exits with code 2, the child of the second writes \<^verbatim>\<open>2\<close> and exits with code 0.
\<close>

definition ex_os :: os where
  "ex_os i exe args sopts =
     (if i = 0 then [Stdout (js ''1''), Close (Num 2)] else [Stdout (js ''2''), Close (Num 0)])"

definition ex_input :: jsval where
  "ex_input =
     Arr [Obj [(''command'', Str (js ''a'')), (''cwd'', Str (js ''/var'')), (''onData'', Fn (UserFn 7))],
          Str (js ''b'')]"

definition ex_options :: "jsstr \<Rightarrow> jsval" where
  "ex_options m = Obj [(''cwd'', Str (js ''/tmp'')), (''mode'', Str m)]"

text \<open>The global options and the two resolved option sets of this batch.\<close>

definition ex_g :: "jsstr \<Rightarrow> jsobj" where
  "ex_g m =
     [(''cwd'', Str (js ''/tmp'')), (''verbose'', Bool False), (''mode'', Str m),
      (''logger'', Fn ConsoleLog)]"

definition ex_ro0 :: "jsstr \<Rightarrow> jsobj" where
  "ex_ro0 m =
     [(''cwd'', Str (js ''/var'')), (''verbose'', Bool False), (''mode'', Str m),
      (''logger'', Fn ConsoleLog), (''command'', Str (js ''a'')), (''onData'', Fn (UserFn 7))]"

definition ex_ro1 :: "jsstr \<Rightarrow> jsobj" where
  "ex_ro1 m =
     [(''cwd'', Str (js ''/tmp'')), (''verbose'', Bool False), (''mode'', Str m),
      (''logger'', Fn ConsoleLog), (''command'', Str (js ''b''))]"

section \<open>Objects: reading, writing and merging\<close>

lemma get_put: "get (put k v obj) k' = (if k' = k then v else get obj k')"
  by (simp add: get_def put_def update_conv')

lemma map_of_put: "map_of (put k v obj) = (map_of obj)(k \<mapsto> v)"
  by (simp add: put_def update_conv')

lemma get_of_key: "k \<in> fst ` set obj \<Longrightarrow> map_of obj k = Some (get obj k)"
  by (auto simp: get_def image_iff split: option.splits dest: weak_map_of_SomeI)

lemma map_of_project:
  "map_of (fold (\<lambda>key acc. if key \<in> A then put key (get options key) acc else acc) ks acc0) k =
     (if k \<in> set ks \<and> k \<in> A then Some (get options k) else map_of acc0 k)"
  by (induction ks arbitrary: acc0) (auto simp: map_of_put)

lemma map_of_spawnProcessOpts:
  "map_of (spawnProcessOpts options) = map_of options |` set spawnOptsAllowedKeys"
proof
  fix k
  show "map_of (spawnProcessOpts options) k = (map_of options |` set spawnOptsAllowedKeys) k"
  proof (cases "k \<in> fst ` set options")
    case True
    then show ?thesis
      by (simp add: spawnProcessOpts_def map_of_project get_of_key restrict_map_def)
  next
    case False
    then have "map_of options k = None"
      by (simp add: map_of_eq_None_iff)
    with False show ?thesis
      by (simp add: spawnProcessOpts_def map_of_project restrict_map_def)
  qed
qed




section \<open>What the spawner does before the first event\<close>

lemma run_spawn_opts:
  "Spawn exe args sopts \<in> set (fst (run os i options)) \<Longrightarrow> sopts = spawnProcessOpts options"
  by (auto simp: run_def log_if_verbose_def split: thrown.splits if_splits jsval.splits)

section \<open>Evaluating the model on concrete inputs\<close>

lemma get_Cons: "get ((k, v) # obj) k' = (if k' = k then v else get obj k')"
  by (simp add: get_def)

lemma get_Nil: "get [] k = Undefined"
  by (simp add: get_def)

lemmas tokenize_eval = tokenize_def match_all_def js_def match_at_def plain_def is_space_def
  dquote_def backslash_def unquote_def

lemmas run_eval = run_def log_if_verbose_def str_plus_def spawnProcessOpts_def spawnOptsAllowedKeys_def
  get_Cons get_Nil put_def

lemma js_append: "js (a @ b) = js a @ js b"
  by (simp add: js_def)

section \<open>Option projection\<close>

text \<open>
  Claim C8. For every resolved option set, the object handed to \<^verbatim>\<open>spawn\<close> holds exactly the
  fields of the options whose name is one of \<^verbatim>\<open>cwd\<close>, \<^verbatim>\<open>env\<close>, \<^verbatim>\<open>stdio\<close>, \<^verbatim>\<open>detached\<close>, \<^verbatim>\<open>uid\<close>, \<^verbatim>\<open>gid\<close>,
  \<^verbatim>\<open>shell\<close>, each with the value it has in the options; a field of any other name
  (\<^verbatim>\<open>onData\<close>, \<^verbatim>\<open>onError\<close>, \<^verbatim>\<open>onDone\<close>, \<^verbatim>\<open>verbose\<close>, \<^verbatim>\<open>logger\<close>, \<^verbatim>\<open>mode\<close>, \<^verbatim>\<open>command\<close>, ...) is never in it;
  and every call of \<^verbatim>\<open>spawn\<close> the spawner makes is given this object.
\<close>

theorem spawn_options_allow_list:
  "map_of (spawnProcessOpts options) = map_of options |` set spawnOptsAllowedKeys \<and>
   (\<forall>k. k \<notin> set spawnOptsAllowedKeys \<longrightarrow> k \<notin> fst ` set (spawnProcessOpts options)) \<and>
   (\<forall>exe args sopts. Spawn exe args sopts \<in> set (fst (run os i options)) \<longrightarrow>
       sopts = spawnProcessOpts options)"
proof (intro conjI allI impI)
  show "map_of (spawnProcessOpts options) = map_of options |` set spawnOptsAllowedKeys"
    by (rule map_of_spawnProcessOpts)
next
  fix k assume "k \<notin> set spawnOptsAllowedKeys"
  then have "map_of (spawnProcessOpts options) k = None"
    by (simp add: map_of_spawnProcessOpts restrict_map_def)
  then show "k \<notin> fst ` set (spawnProcessOpts options)"
    by (simp add: map_of_eq_None_iff)
next
  fix exe args sopts
  assume "Spawn exe args sopts \<in> set (fst (run os i options))"
  then show "sopts = spawnProcessOpts options" by (rule run_spawn_opts)
qed

text \<open>
  The theorem at a verbose command with a callback and a shell flag: \<^verbatim>\<open>spawn\<close> is called with
  \<^verbatim>\<open>cwd\<close> and \<^verbatim>\<open>shell\<close> only.
\<close>

theorem spawn_options_allow_list_witness:
  "''onData'' \<notin> set spawnOptsAllowedKeys \<and>
   ''onData'' \<notin> fst ` set (spawnProcessOpts
      [(''cwd'', Str (js ''/tmp'')), (''verbose'', Bool True), (''logger'', Fn ConsoleLog),
       (''command'', Str (js ''ls -la'')), (''onData'', Fn (UserFn 1)), (''shell'', Bool True)]) \<and>
   Spawn (js ''ls'') [js ''-la''] [(''cwd'', Str (js ''/tmp'')), (''shell'', Bool True)]
     \<in> set (fst (run (\<lambda>i exe args so. []) 0
      [(''cwd'', Str (js ''/tmp'')), (''verbose'', Bool True), (''logger'', Fn ConsoleLog),
       (''command'', Str (js ''ls -la'')), (''onData'', Fn (UserFn 1)), (''shell'', Bool True)])) \<and>
   [(''cwd'', Str (js ''/tmp'')), (''shell'', Bool True)] =
   spawnProcessOpts
      [(''cwd'', Str (js ''/tmp'')), (''verbose'', Bool True), (''logger'', Fn ConsoleLog),
       (''command'', Str (js ''ls -la'')), (''onData'', Fn (UserFn 1)), (''shell'', Bool True)]"
proof -
  let ?o = "[(''cwd'', Str (js ''/tmp'')), (''verbose'', Bool True), (''logger'', Fn ConsoleLog),
       (''command'', Str (js ''ls -la'')), (''onData'', Fn (UserFn 1)), (''shell'', Bool True)]"
  have k: "''onData'' \<notin> set spawnOptsAllowedKeys"
    by (simp add: spawnOptsAllowedKeys_def)
  have sp: "Spawn (js ''ls'') [js ''-la''] [(''cwd'', Str (js ''/tmp'')), (''shell'', Bool True)]
     \<in> set (fst (run (\<lambda>i exe args so. []) 0 ?o))"
    by (simp add: run_eval tokenize_eval)
  from spawn_options_allow_list [of ?o "\<lambda>i exe args so. []" 0] k sp
  show ?thesis by blast
qed

section \<open>The scan\<close>






lemma match_at_None: "match_at (c # cs) = None \<Longrightarrow> \<not> plain c"
  by (auto simp: match_at_def split: if_splits)



lemma skip_not_plain: "Skip c \<in> set (scan s) \<Longrightarrow> \<not> plain c"
proof (induction s rule: scan.induct)
  case 1
  then show ?case by simp
next
  case (2 d ds)
  show ?case
  proof (cases "match_at (d # ds)")
    case None
    with 2 match_at_None [OF None] show ?thesis by auto
  next
    case (Some n)
    with 2 show ?thesis by auto
  qed
qed

lemma plain_dquote [simp]: "\<not> plain dquote"
  by (simp add: plain_def)














section \<open>Tokenization\<close>



section \<open>One command: the spawner and its listeners\<close>

lemma if_function_eq:
  "if_function v call = (case v of Fn f \<Rightarrow> [call f] | _ \<Rightarrow> [])"
  by (cases v) simp_all

lemma log_if_verbose_cases:
  "log_if_verbose options msg = Throw e \<Longrightarrow>
     e = TypeError \<and> truthy (get options ''verbose'') \<and> typeof (get options ''logger'') \<noteq> ''function''"
  "log_if_verbose options msg = Ok acts \<Longrightarrow>
     (truthy (get options ''verbose'') \<longrightarrow> typeof (get options ''logger'') = ''function'') \<and>
     acts = (if truthy (get options ''verbose'')
             then if_function (get options ''logger'') (\<lambda>f. Log f msg) else [])"
  by (auto simp: log_if_verbose_def split: if_splits jsval.splits)

lemma tokenize_Throw: "tokenize command = Throw e \<Longrightarrow> e = TypeError"
  by (auto simp: tokenize_def split: jsval.splits option.splits list.splits)

lemma tokenize_Ok_iff:
  "(\<exists>r. tokenize command = Ok r) \<longleftrightarrow> (case command of Str s \<Rightarrow> toks (scan s) \<noteq> [] | _ \<Rightarrow> False)"
  by (cases command) (auto simp: tokenize_def match_all_def split: list.splits)

lemma runnable_iff:
  "runnable options \<longleftrightarrow>
     (\<exists>acts. log_if_verbose options (str_plus (js ''$ '') (get options ''command'')) = Ok acts) \<and>
     (\<exists>r. tokenize (get options ''command'') = Ok r)"
proof -
  have "(\<exists>acts. log_if_verbose options msg = Ok acts) \<longleftrightarrow>
        (truthy (get options ''verbose'') \<longrightarrow> typeof (get options ''logger'') = ''function'')" for msg
    by (auto simp: log_if_verbose_def split: jsval.splits)
  then show ?thesis
    unfolding runnable_def by (simp only: tokenize_Ok_iff)
qed

lemma run_runnable:
  assumes "runnable options"
  shows "\<exists>runCMD cmds.
     tokenize (get options ''command'') = Ok (runCMD, cmds) \<and>
     run os i options =
       ((if truthy (get options ''verbose'')
         then if_function (get options ''logger'')
                (\<lambda>f. Log f (str_plus (js ''$ '') (get options ''command''))) else [])
        @ [Spawn runCMD cmds (spawnProcessOpts options)],
        \<lparr>promise = Pending, opts = options,
         pending = os i runCMD cmds (spawnProcessOpts options)\<rparr>)"
proof -
  from assms obtain acts r where
    l: "log_if_verbose options (str_plus (js ''$ '') (get options ''command'')) = Ok acts"
    and t: "tokenize (get options ''command'') = Ok r"
    unfolding runnable_iff by blast
  obtain runCMD cmds where r: "r = (runCMD, cmds)"
    by (cases r)
  from log_if_verbose_cases(2) [OF l] t r l show ?thesis
    by (simp add: run_def)
qed

lemma run_not_runnable:
  assumes "\<not> runnable options"
  shows "snd (run os i options) = \<lparr>promise = Rejected TypeError, opts = options, pending = []\<rparr> \<and>
         (\<forall>a \<in> set (fst (run os i options)). (\<exists>f text. a = Log f text) \<or> a = Reject TypeError)"
proof (cases "log_if_verbose options (str_plus (js ''$ '') (get options ''command''))")
  case (Throw e)
  with log_if_verbose_cases(1) [OF Throw] show ?thesis
    by (simp add: run_def)
next
  case (Ok acts)
  with assms obtain e where t: "tokenize (get options ''command'') = Throw e"
    unfolding runnable_iff by (cases "tokenize (get options ''command'')") auto
  from log_if_verbose_cases(2) [OF Ok] have "\<forall>a \<in> set acts. \<exists>f text. a = Log f text"
    by (cases "get options ''logger''") (auto split: if_splits)
  with Ok t tokenize_Throw [OF t] show ?thesis
    by (auto simp: run_def)
qed

lemma run_task:
  "snd (run os i options) =
     (if runnable options
      then \<lparr>promise = Pending, opts = options, pending = pending (snd (run os i options))\<rparr>
      else \<lparr>promise = Rejected TypeError, opts = options, pending = []\<rparr>)"
proof (cases "runnable options")
  case True
  from run_runnable [OF True, of os i] True show ?thesis
    by auto
next
  case False
  from run_not_runnable [OF False, of os i] False show ?thesis
    by simp
qed

lemma run_opts [simp]: "opts (snd (run os i options)) = options"
  by (subst run_task) simp

lemma run_promise:
  "promise (snd (run os i options)) = (if runnable options then Pending else Rejected TypeError)"
  by (subst run_task) simp

lemma run_pending_runnable: "pending (snd (run os i options)) \<noteq> [] \<Longrightarrow> runnable options"
  using run_not_runnable [of options os i] by (cases "runnable options") auto

lemma run_no_dispatch: "Dispatch ro \<notin> set (fst (run os i options))"
  by (cases "runnable options")
    (use run_runnable [of options os i] run_not_runnable [of options os i] in
      \<open>auto simp: if_function_eq split: if_splits jsval.splits\<close>)

lemma run_no_resolve: "Resolve v \<notin> set (fst (run os i options))"
  by (cases "runnable options")
    (use run_runnable [of options os i] run_not_runnable [of options os i] in
      \<open>auto simp: if_function_eq split: if_splits jsval.splits\<close>)

lemma listener_no_dispatch: "Dispatch ro \<notin> set (listener options e)"
  by (cases e) (auto simp: log_if_verbose_def if_function_eq split: thrown.splits jsval.splits if_splits)

lemma listener_resolve:
  "Resolve v \<in> set (listener options e) \<longleftrightarrow> e = Close v \<or> e = Error v"
  by (cases e) (auto simp: log_if_verbose_def if_function_eq split: thrown.splits jsval.splits if_splits)

lemma settle_fold_no_resolve:
  "\<forall>v. Resolve v \<notin> set acts \<Longrightarrow> fold (\<lambda>a p. settle p a) acts p = p"
proof (induction acts arbitrary: p)
  case Nil
  then show ?case by simp
next
  case (Cons a acts)
  then have "settle p a = p"
    by (cases a; cases p) auto
  with Cons show ?case by simp
qed

lemma settle_fold_settled:
  "p \<noteq> Pending \<Longrightarrow> fold (\<lambda>a p. settle p a) acts p = p"
proof (induction acts arbitrary: p)
  case Nil
  then show ?case by simp
next
  case (Cons a acts)
  then have "settle p a = p"
    by (cases a; cases p) auto
  with Cons show ?case by simp
qed

lemma settle_listener:
  "fold (\<lambda>a p. settle p a) (listener options e) p =
     (case p of
        Pending \<Rightarrow> (case e of Close v \<Rightarrow> Resolved v | Error v \<Rightarrow> Resolved v | _ \<Rightarrow> Pending)
      | _ \<Rightarrow> p)"
proof (cases "p = Pending")
  case False
  then show ?thesis
    by (cases p) (simp_all add: settle_fold_settled)
next
  case True
  show ?thesis
  proof (cases e)
    case (Stdout d)
    then have "\<forall>v. Resolve v \<notin> set (listener options e)"
      by (simp add: listener_resolve del: listener.simps)
    with True Stdout show ?thesis
      by (simp add: settle_fold_no_resolve del: listener.simps)
  next
    case (Stderr d)
    then have "\<forall>v. Resolve v \<notin> set (listener options e)"
      by (simp add: listener_resolve del: listener.simps)
    with True Stderr show ?thesis
      by (simp add: settle_fold_no_resolve del: listener.simps)
  next
    case (Close v)
    have "fold (\<lambda>a p. settle p a) (if_function (get options ''onDone'') (\<lambda>f. OnDone f [v])) Pending = Pending"
      by (simp add: if_function_eq split: jsval.splits)
    with True Close show ?thesis by simp
  next
    case (Error v)
    have "fold (\<lambda>a p. settle p a) (if_function (get options ''onDone'') (\<lambda>f. OnDone f [v, Bool True])) Pending = Pending"
      by (simp add: if_function_eq split: jsval.splits)
    with True Error show ?thesis by simp
  qed
qed

lemma deliver_Nil: "pending t = [] \<Longrightarrow> deliver t = ([], t)"
  by (simp add: deliver_def)

lemma deliver_Cons:
  "pending t = e # es \<Longrightarrow>
     deliver t =
       (listener (opts t) e,
        t\<lparr>promise :=
            (case promise t of
               Pending \<Rightarrow> (case e of Close v \<Rightarrow> Resolved v | Error v \<Rightarrow> Resolved v | _ \<Rightarrow> Pending)
             | p \<Rightarrow> p),
          pending := es\<rparr>)"
  by (cases "promise t") (simp_all add: deliver_def settle_listener)

lemma deliver_opts [simp]: "opts (snd (deliver t)) = opts t"
  by (cases "pending t") (simp_all add: deliver_Nil deliver_Cons)

lemma deliver_settled:
  "promise t \<noteq> Pending \<Longrightarrow> promise (snd (deliver t)) = promise t"
  by (cases "pending t"; cases "promise t") (simp_all add: deliver_Nil deliver_Cons)

lemma deliver_never_rejects:
  "promise (snd (deliver t)) = Rejected e \<Longrightarrow> promise t = Rejected e"
  by (cases "pending t"; cases "promise t")
    (auto simp: deliver_Nil deliver_Cons split: proc_event.splits)

lemma deliver_eventual [simp]: "eventual (snd (deliver t)) = eventual t"
proof (cases "pending t")
  case Nil
  then show ?thesis by (simp add: deliver_Nil)
next
  case (Cons e es)
  then show ?thesis
    by (cases "promise t"; cases e) (simp_all add: deliver_Cons eventual_def)
qed

lemma deliver_resolved_eventual:
  "promise (snd (deliver t)) = Resolved v \<Longrightarrow> eventual t = Resolved v"
proof -
  assume "promise (snd (deliver t)) = Resolved v"
  then have "eventual (snd (deliver t)) = Resolved v"
    by (simp add: eventual_def)
  then show ?thesis by simp
qed

lemma deliver_pending_subset: "set (pending (snd (deliver t))) \<subseteq> set (pending t)"
  by (cases "pending t") (auto simp: deliver_Nil deliver_Cons)

lemma deliver_no_dispatch: "Dispatch ro \<notin> set (fst (deliver t))"
  by (cases "pending t") (simp_all add: deliver_Nil deliver_Cons listener_no_dispatch del: listener.simps)

lemma deliver_resolve_recorded:
  "promise t = Pending \<Longrightarrow> promise (snd (deliver t)) = Resolved v \<Longrightarrow>
     Resolve v \<in> set (fst (deliver t))"
  by (cases "pending t")
    (auto simp: deliver_Nil deliver_Cons listener_resolve simp del: listener.simps
      split: proc_event.splits)

section \<open>Traces and lists of promises\<close>

lemma dispatches_append: "dispatches (tr @ tr') = dispatches tr @ dispatches tr'"
  by (induction tr rule: dispatches.induct) simp_all

lemma dispatches_none:
  "\<forall>i ro. (i, Dispatch ro) \<notin> set tr \<Longrightarrow> dispatches tr = []"
  by (induction tr rule: dispatches.induct) auto

lemma dispatches_tagged:
  "\<forall>ro. Dispatch ro \<notin> set acts \<Longrightarrow> dispatches (map (Pair k) acts) = []"
  by (rule dispatches_none) auto

lemma in_order_Nil: "in_order []"
  by (simp add: in_order_def)

lemma in_order_split:
  assumes "in_order tr" and "tr = pre @ (Suc i, Dispatch ro) # post"
  shows "\<exists>v. (i, Resolve v) \<in> set pre"
proof -
  have "length pre < length tr" "tr ! length pre = (Suc i, Dispatch ro)" "take (length pre) tr = pre"
    using assms(2) by simp_all
  with assms(1) show ?thesis
    unfolding in_order_def by metis
qed

lemma in_order_append:
  assumes "in_order tr"
    and "\<And>j i ro. j < length es \<Longrightarrow> es ! j = (Suc i, Dispatch ro) \<Longrightarrow>
           \<exists>v. (i, Resolve v) \<in> set tr \<union> set (take j es)"
  shows "in_order (tr @ es)"
  unfolding in_order_def
proof (intro allI impI)
  fix j i ro
  assume j: "j < length (tr @ es)" and at: "(tr @ es) ! j = (Suc i, Dispatch ro)"
  show "\<exists>v. (i, Resolve v) \<in> set (take j (tr @ es))"
  proof (cases "j < length tr")
    case True
    with at have "tr ! j = (Suc i, Dispatch ro)"
      by (simp add: nth_append)
    with assms(1) True obtain v where "(i, Resolve v) \<in> set (take j tr)"
      unfolding in_order_def by blast
    with True show ?thesis by auto
  next
    case False
    with j at have "j - length tr < length es" "es ! (j - length tr) = (Suc i, Dispatch ro)"
      by (simp_all add: nth_append)
    from assms(2) [OF this] obtain v where
      "(i, Resolve v) \<in> set tr \<union> set (take (j - length tr) es)"
      by blast
    with False show ?thesis by auto
  qed
qed

lemma in_order_append_quiet:
  assumes "in_order tr" and "\<forall>i ro. (i, Dispatch ro) \<notin> set es"
  shows "in_order (tr @ es)"
proof (rule in_order_append [OF assms(1)])
  fix j i ro
  assume "j < length es" "es ! j = (Suc i, Dispatch ro)"
  then have "(Suc i, Dispatch ro) \<in> set es"
    by (metis nth_mem)
  with assms(2) show "\<exists>v. (i, Resolve v) \<in> set tr \<union> set (take j es)"
    by blast
qed

lemma in_order_append_dispatch:
  assumes "in_order tr" and "n = 0 \<or> (\<exists>v. (n - 1, Resolve v) \<in> set tr)"
    and "\<forall>ro. Dispatch ro \<notin> set acts"
  shows "in_order (tr @ map (Pair n) (Dispatch ro # acts))"
proof (rule in_order_append [OF assms(1)])
  fix j i ro'
  let ?es = "map (Pair n) (Dispatch ro # acts)"
  assume j: "j < length ?es" and at: "?es ! j = (Suc i, Dispatch ro')"
  have "j = 0"
  proof (rule ccontr)
    assume "j \<noteq> 0"
    then obtain j' where j': "j = Suc j'" by (cases j) auto
    with j at have "j' < length acts" "acts ! j' = Dispatch ro'"
      by auto
    then have "Dispatch ro' \<in> set acts"
      by (metis nth_mem)
    with assms(3) show False by blast
  qed
  with at have "n = Suc i"
    by simp
  with assms(2) show "\<exists>v. (i, Resolve v) \<in> set tr \<union> set (take j ?es)"
    by auto
qed

lemma vals_append: "vals (ts @ ts') = vals ts @ vals ts'"
  by (induction ts) (auto split: pstate.splits)

lemma vals_all_resolved:
  "\<forall>t \<in> set ts. \<exists>v. promise t = Resolved v \<Longrightarrow> length (vals ts) = length ts"
  by (induction ts) (auto split: pstate.splits)

lemma first_rejected_map:
  "map promise ts = map promise ts' \<Longrightarrow> first_rejected ts = first_rejected ts'"
proof (induction ts arbitrary: ts')
  case Nil
  then show ?case by simp
next
  case (Cons t ts)
  then obtain u us where "ts' = u # us" by (cases ts') auto
  with Cons show ?case by (auto split: pstate.splits)
qed

lemma all_values_map:
  "map promise ts = map promise ts' \<Longrightarrow> all_values ts = all_values ts'"
proof (induction ts arbitrary: ts')
  case Nil
  then show ?case by simp
next
  case (Cons t ts)
  then obtain u us where u: "ts' = u # us" by (cases ts') auto
  with Cons.prems have "promise t = promise u" "map promise ts = map promise us"
    by simp_all
  with Cons.IH [of us] u show ?case by (cases "promise u") simp_all
qed

lemma promise_all_map:
  assumes "map promise ts = map promise ts'"
  shows "promise_all ts = promise_all ts'"
  unfolding promise_all_def first_rejected_map [OF assms] all_values_map [OF assms] ..

lemma first_rejected_Some:
  "first_rejected ts = Some e \<Longrightarrow> \<exists>i < length ts. promise (ts ! i) = Rejected e"
proof (induction ts)
  case Nil
  then show ?case by simp
next
  case (Cons t ts)
  show ?case
  proof (cases "promise t = Rejected e")
    case True
    then show ?thesis by auto
  next
    case False
    with Cons.prems have "first_rejected ts = Some e"
      by (auto split: pstate.splits)
    with Cons.IH obtain i where "i < length ts" "promise (ts ! i) = Rejected e"
      by blast
    then show ?thesis by (intro exI [of _ "Suc i"]) simp
  qed
qed

lemma first_rejected_None:
  "first_rejected ts = None \<longleftrightarrow> (\<forall>t \<in> set ts. \<forall>e. promise t \<noteq> Rejected e)"
  by (induction ts) (auto split: pstate.splits)

lemma all_values_Some:
  "all_values ts = Some vs \<longleftrightarrow> map promise ts = map Resolved vs"
proof (induction ts arbitrary: vs)
  case Nil
  then show ?case by auto
next
  case (Cons t ts)
  show ?case
  proof (cases "promise t")
    case (Resolved v)
    with Cons show ?thesis
      by (cases vs) auto
  next
    case Pending
    then show ?thesis by (cases vs) auto
  next
    case (Rejected e)
    then show ?thesis by (cases vs) auto
  qed
qed

lemma first_rejected_update:
  assumes "k < length ts" and "\<forall>e. promise (ts ! k) \<noteq> Rejected e" and "\<forall>e. promise t \<noteq> Rejected e"
  shows "first_rejected (ts[k := t]) = first_rejected ts"
  using assms
proof (induction ts arbitrary: k)
  case Nil
  then show ?case by simp
next
  case (Cons u us)
  show ?case
  proof (cases k)
    case 0
    with Cons.prems show ?thesis
      by (cases "promise u"; cases "promise t") auto
  next
    case (Suc k')
    with Cons show ?thesis by (auto split: pstate.splits)
  qed
qed

lemma promise_all_Resolved:
  "promise_all ts = Resolved v \<longleftrightarrow> (\<exists>vs. v = Arr vs \<and> map promise ts = map Resolved vs)"
proof
  assume "promise_all ts = Resolved v"
  then obtain vs where "all_values ts = Some vs" "v = Arr vs"
    by (auto simp: promise_all_def split: option.splits)
  then show "\<exists>vs. v = Arr vs \<and> map promise ts = map Resolved vs"
    by (auto simp: all_values_Some)
next
  assume "\<exists>vs. v = Arr vs \<and> map promise ts = map Resolved vs"
  then obtain vs where vs: "v = Arr vs" "map promise ts = map Resolved vs"
    by blast
  then have "all_values ts = Some vs"
    by (simp add: all_values_Some)
  moreover have "first_rejected ts = None"
    unfolding first_rejected_None
  proof (intro ballI allI)
    fix t e assume "t \<in> set ts"
    then have "promise t \<in> set (map Resolved vs)"
      using vs(2) by (metis image_eqI list.set_map)
    then show "promise t \<noteq> Rejected e" by auto
  qed
  ultimately show "promise_all ts = Resolved v"
    using vs(1) by (simp add: promise_all_def)
qed

lemma promise_all_Rejected:
  "promise_all ts = Rejected e \<longleftrightarrow> first_rejected ts = Some e"
  by (auto simp: promise_all_def split: option.splits)

section \<open>Dispatching\<close>

lemma dispatch_eq:
  "dispatch os g i cmd =
     (map (Pair i) (Dispatch (resolvedOpts g cmd) # fst (run os i (resolvedOpts g cmd))),
      snd (run os i (resolvedOpts g cmd)))"
  by (simp add: dispatch_def split: prod.splits)

lemma dispatch_dispatches:
  "dispatches (fst (dispatch os g i cmd)) = [(i, resolvedOpts g cmd)]"
  by (simp add: dispatch_eq dispatches_tagged run_no_dispatch)

lemma dispatch_no_resolve: "(j, Resolve v) \<notin> set (fst (dispatch os g i cmd))"
  by (auto simp: dispatch_eq run_no_resolve)

lemma run_no_uncaught: "Uncaught u \<notin> set (fst (run os i options))"
  by (cases "runnable options")
    (use run_runnable [of options os i] run_not_runnable [of options os i] in
      \<open>auto simp: if_function_eq split: if_splits jsval.splits\<close>)

lemma dispatch_no_uncaught: "(j, Uncaught u) \<notin> set (fst (dispatch os g i cmd))"
  by (auto simp: dispatch_eq run_no_uncaught)

lemma task_inv_run: "task_inv os g cmds i (snd (run os i (resolvedOpts g (cmds ! i))))"
  using run_pending_runnable by (auto simp: task_inv_def)

lemma dispatch_all_tasks:
  "snd (dispatch_all os g i cmds) =
     map (\<lambda>j. snd (run os (i + j) (resolvedOpts g (cmds ! j)))) [0..<length cmds]"
proof (induction cmds arbitrary: i)
  case Nil
  then show ?case by simp
next
  case (Cons cmd cmds)
  have upt: "[0..<length (cmd # cmds)] = 0 # map Suc [0..<length cmds]"
    by (simp add: upt_conv_Cons map_Suc_upt del: upt_Suc)
  obtain es' ts where da: "dispatch_all os g (Suc i) cmds = (es', ts)"
    by (cases "dispatch_all os g (Suc i) cmds")
  with Cons [of "Suc i"]
  have "ts = map (\<lambda>j. snd (run os (Suc i + j) (resolvedOpts g (cmds ! j)))) [0..<length cmds]"
    by simp
  then show ?case
    unfolding upt using da by (simp add: dispatch_eq)
qed

lemma dispatch_all_dispatches:
  "dispatches (fst (dispatch_all os g i cmds)) =
     map (\<lambda>j. (i + j, resolvedOpts g (cmds ! j))) [0..<length cmds]"
proof (induction cmds arbitrary: i)
  case Nil
  then show ?case by simp
next
  case (Cons cmd cmds)
  have upt: "[0..<length (cmd # cmds)] = 0 # map Suc [0..<length cmds]"
    by (simp add: upt_conv_Cons map_Suc_upt del: upt_Suc)
  obtain es t where d: "dispatch os g i cmd = (es, t)"
    by (cases "dispatch os g i cmd")
  obtain es' ts where da: "dispatch_all os g (Suc i) cmds = (es', ts)"
    by (cases "dispatch_all os g (Suc i) cmds")
  have "dispatches es = [(i, resolvedOpts g cmd)]"
    using dispatch_dispatches [of os g i cmd] d by simp
  moreover have "dispatches es' = map (\<lambda>j. (Suc i + j, resolvedOpts g (cmds ! j))) [0..<length cmds]"
    using Cons [of "Suc i"] da by simp
  ultimately show ?case
    unfolding upt using d da by (simp add: dispatches_append)
qed

lemma dispatch_all_quiet:
  "(j, Resolve v) \<notin> set (fst (dispatch_all os g i cmds)) \<and>
   (j, Uncaught u) \<notin> set (fst (dispatch_all os g i cmds))"
proof (induction cmds arbitrary: i)
  case Nil
  then show ?case by simp
next
  case (Cons cmd cmds)
  obtain es t where d: "dispatch os g i cmd = (es, t)"
    by (cases "dispatch os g i cmd")
  obtain es' ts where da: "dispatch_all os g (Suc i) cmds = (es', ts)"
    by (cases "dispatch_all os g (Suc i) cmds")
  from dispatch_no_resolve [of j v os g i cmd] dispatch_no_uncaught [of j u os g i cmd] d
  have "(j, Resolve v) \<notin> set es" "(j, Uncaught u) \<notin> set es"
    by simp_all
  moreover from Cons [of "Suc i"] da
  have "(j, Resolve v) \<notin> set es'" "(j, Uncaught u) \<notin> set es'"
    by simp_all
  ultimately show ?case
    using d da by simp
qed

section \<open>The invariant: what both modes share\<close>

lemma emit_eq:
  "emit k s =
     s\<lparr>tasks := (tasks s)[k := snd (deliver (tasks s ! k))],
       trace := trace s @ map (Pair k) (fst (deliver (tasks s ! k)))\<rparr>"
  by (simp add: emit_def split: prod.splits)

lemma listener_no_uncaught:
  "runnable options \<Longrightarrow> Uncaught u \<notin> set (listener options e)"
  by (cases e)
    (auto simp: runnable_def log_if_verbose_def if_function_eq split: jsval.splits if_splits)

lemma deliver_no_uncaught:
  "pending t \<noteq> [] \<longrightarrow> runnable (opts t) \<Longrightarrow> Uncaught u \<notin> set (fst (deliver t))"
  by (cases "pending t")
    (simp_all add: deliver_Nil deliver_Cons listener_no_uncaught del: listener.simps)

lemma deliver_pending: "pending (snd (deliver t)) = tl (pending t)"
  by (cases "pending t") (simp_all add: deliver_Nil deliver_Cons)

lemma task_inv_deliver:
  "task_inv os g cmds i t \<Longrightarrow> task_inv os g cmds i (snd (deliver t))"
  using deliver_pending_subset [of t] by (auto simp: task_inv_def deliver_pending)

lemma emit_common:
  assumes "inv_common os g cmds s" and k: "k < length (tasks s)"
  shows "inv_common os g cmds (emit k s)"
proof -
  let ?t = "tasks s ! k"
  let ?t' = "snd (deliver ?t)"
  let ?acts = "fst (deliver ?t)"
  from assms have ti: "task_inv os g cmds k ?t"
    by (simp add: inv_common_def)
  have tasks: "\<forall>i < length (tasks s). task_inv os g cmds i ((tasks s)[k := ?t'] ! i)"
  proof (intro allI impI)
    fix i assume i: "i < length (tasks s)"
    show "task_inv os g cmds i ((tasks s)[k := ?t'] ! i)"
    proof (cases "i = k")
      case True
      with i task_inv_deliver [OF ti] show ?thesis by simp
    next
      case False
      with i assms(1) show ?thesis by (simp add: inv_common_def)
    qed
  qed
  have recorded: "\<forall>i < length (tasks s). \<forall>v.
      promise ((tasks s)[k := ?t'] ! i) = Resolved v \<longrightarrow>
      (i, Resolve v) \<in> set (trace s @ map (Pair k) ?acts)"
  proof (intro allI impI)
    fix i v
    assume i: "i < length (tasks s)" and r: "promise ((tasks s)[k := ?t'] ! i) = Resolved v"
    show "(i, Resolve v) \<in> set (trace s @ map (Pair k) ?acts)"
    proof (cases "i = k")
      case False
      with i r assms(1) show ?thesis
        by (auto simp: inv_common_def)
    next
      case True
      with i r have r': "promise ?t' = Resolved v"
        by simp
      show ?thesis
      proof (cases "promise ?t = Pending")
        case True
        from deliver_resolve_recorded [OF True r'] \<open>i = k\<close> show ?thesis
          by auto
      next
        case False
        with r' have "promise ?t = Resolved v"
          by (simp add: deliver_settled)
        with assms \<open>i = k\<close> show ?thesis
          by (auto simp: inv_common_def)
      qed
    qed
  qed
  have disp: "dispatches (trace s @ map (Pair k) ?acts) = dispatches (trace s)"
    by (simp add: dispatches_append dispatches_tagged deliver_no_dispatch)
  have unc: "\<forall>i u. (i, Uncaught u) \<notin> set (trace s @ map (Pair k) ?acts)"
    using assms(1) deliver_no_uncaught [of ?t] ti
    by (auto simp: inv_common_def task_inv_def)
  from assms(1) tasks recorded disp unc show ?thesis
    by (simp add: inv_common_def emit_eq)
qed

lemma inv_common_results [simp]:
  "inv_common os g cmds (s\<lparr>results := r\<rparr>) = inv_common os g cmds s"
  by (simp add: inv_common_def)

lemma inv_common_batch [simp]:
  "inv_common os g cmds (s\<lparr>batch := b\<rparr>) = inv_common os g cmds s"
  by (simp add: inv_common_def)

lemma drop_eq_ConsD:
  assumes "drop n xs = x # ys"
  shows "n < length xs \<and> x = xs ! n \<and> ys = drop (Suc n) xs"
proof -
  have n: "n < length xs"
    using assms by (cases "n < length xs") auto
  from Cons_nth_drop_Suc [OF n] assms show ?thesis
    using n by simp
qed

lemma seq_next_Nil: "queue s = [] \<Longrightarrow> seq_next os s = s\<lparr>batch := Resolved (Arr (results s))\<rparr>"
  by (simp add: seq_next_def)

lemma seq_next_Cons:
  "queue s = cmd # cmds \<Longrightarrow>
     seq_next os s =
       s\<lparr>tasks := tasks s @ [snd (run os (length (tasks s)) (resolvedOpts (globalOpts s) cmd))],
         queue := cmds,
         trace := trace s @ fst (dispatch os (globalOpts s) (length (tasks s)) cmd),
         batch := (if runnable (resolvedOpts (globalOpts s) cmd) then batch s
                   else Rejected TypeError)\<rparr>"
  by (simp add: seq_next_def dispatch_eq run_promise)

lemma seq_next_common:
  assumes "inv_common os g cmds s" and q: "queue s = drop (length (tasks s)) cmds"
  shows "inv_common os g cmds (seq_next os s)"
proof (cases "queue s")
  case Nil
  with assms(1) show ?thesis
    by (simp add: seq_next_Nil)
next
  case (Cons cmd rest)
  let ?n = "length (tasks s)"
  from Cons q have "drop ?n cmds = cmd # rest"
    by simp
  from drop_eq_ConsD [OF this] have n: "?n < length cmds" and cmd: "cmd = cmds ! ?n"
    by simp_all
  let ?t = "snd (run os ?n (resolvedOpts g cmd))"
  let ?es = "fst (dispatch os g ?n cmd)"
  from assms(1) have g: "globalOpts s = g"
    by (simp add: inv_common_def)
  have tasks: "\<forall>i < Suc ?n. task_inv os g cmds i ((tasks s @ [?t]) ! i)"
    using assms(1) task_inv_run [of os g cmds ?n] cmd
    by (auto simp: inv_common_def nth_append less_Suc_eq)
  have recorded: "\<forall>i < Suc ?n. \<forall>v. promise ((tasks s @ [?t]) ! i) = Resolved v \<longrightarrow>
      (i, Resolve v) \<in> set (trace s @ ?es)"
    using assms(1) by (auto simp: inv_common_def nth_append less_Suc_eq run_promise)
  have disp: "dispatches (trace s @ ?es) =
      map (\<lambda>i. (i, resolvedOpts g (cmds ! i))) [0..<Suc ?n]"
    using assms(1) cmd by (simp add: inv_common_def dispatches_append dispatch_dispatches)
  have unc: "\<forall>i u. (i, Uncaught u) \<notin> set (trace s @ ?es)"
    using assms(1) dispatch_no_uncaught by (auto simp: inv_common_def)
  from n tasks recorded disp unc g show ?thesis
    by (simp add: seq_next_Cons [OF Cons] inv_common_def)
qed

section \<open>The invariant in parallel mode\<close>

lemma step_outside: "\<not> k < length (tasks s) \<Longrightarrow> step os k s = s"
  by (simp add: step_def)

lemma step_par:
  "parallel s \<Longrightarrow> k < length (tasks s) \<Longrightarrow>
     step os k s =
       (emit k s)\<lparr>batch := (if batch s = Pending then promise_all (tasks (emit k s)) else batch s)\<rparr>"
  by (simp add: step_def Let_def)

lemma emit_fields [simp]:
  "tasks (emit k s) = (tasks s)[k := snd (deliver (tasks s ! k))]"
  "trace (emit k s) = trace s @ map (Pair k) (fst (deliver (tasks s ! k)))"
  "queue (emit k s) = queue s" "results (emit k s) = results s" "batch (emit k s) = batch s"
  "parallel (emit k s) = parallel s" "globalOpts (emit k s) = globalOpts s"
  by (simp_all add: emit_eq)

lemma promise_all_deliver:
  assumes k: "k < length ts" and settled: "promise_all ts \<noteq> Pending"
  shows "promise_all (ts[k := snd (deliver (ts ! k))]) = promise_all ts"
proof (cases "promise (ts ! k) = Pending")
  case False
  then have "promise (snd (deliver (ts ! k))) = promise (ts ! k)"
    by (rule deliver_settled)
  then have "map promise (ts[k := snd (deliver (ts ! k))]) = map promise ts"
    by (simp add: map_update list_update_same_conv k)
  then show ?thesis by (rule promise_all_map)
next
  case True
  have "\<not> (\<exists>v. promise_all ts = Resolved v)"
  proof
    assume "\<exists>v. promise_all ts = Resolved v"
    then obtain vs where "map promise ts = map Resolved vs"
      unfolding promise_all_Resolved by blast
    then have "promise (ts ! k) = Resolved (vs ! k)"
      using k by (metis length_map nth_map)
    with True show False by simp
  qed
  with settled obtain e where e: "promise_all ts = Rejected e"
    by (cases "promise_all ts") auto
  then have fr: "first_rejected ts = Some e"
    by (simp add: promise_all_Rejected)
  have "\<forall>e'. promise (snd (deliver (ts ! k))) \<noteq> Rejected e'"
    using True deliver_never_rejects [of "ts ! k"] by auto
  with True k have "first_rejected (ts[k := snd (deliver (ts ! k))]) = first_rejected ts"
    by (intro first_rejected_update) auto
  with fr have "promise_all (ts[k := snd (deliver (ts ! k))]) = Rejected e"
    by (simp add: promise_all_Rejected)
  with e show ?thesis by simp
qed

lemma step_par_inv:
  assumes "inv_par cmds s" and "parallel s"
  shows "inv_par cmds (step os k s) \<and> parallel (step os k s)"
proof (cases "k < length (tasks s)")
  case False
  with assms show ?thesis by (simp add: step_outside)
next
  case True
  from assms(1) have b: "batch s = promise_all (tasks s)"
    by (simp add: inv_par_def)
  have "batch s \<noteq> Pending \<Longrightarrow> promise_all ((tasks s)[k := snd (deliver (tasks s ! k))]) = batch s"
    using promise_all_deliver [OF True] b by simp
  with assms True show ?thesis
    by (auto simp: step_par inv_par_def)
qed

section \<open>The invariant in sequential mode\<close>

lemma step_seq_resolved:
  assumes "\<not> parallel s" and "k < length (tasks s)" and "promise (tasks s ! k) = Pending"
    and "promise (snd (deliver (tasks s ! k))) = Resolved v"
  shows "step os k s = seq_next os ((emit k s)\<lparr>results := results s @ [v]\<rparr>)"
  using assms by (simp add: step_def Let_def)

lemma step_seq_other:
  assumes "\<not> parallel s" and "k < length (tasks s)"
    and "\<not> (promise (tasks s ! k) = Pending \<and> (\<exists>v. promise (snd (deliver (tasks s ! k))) = Resolved v))"
  shows "step os k s = emit k s"
  using assms by (auto simp: step_def Let_def split: pstate.splits)

lemma deliver_keeps_promise:
  assumes "\<not> (promise t = Pending \<and> (\<exists>v. promise (snd (deliver t)) = Resolved v))"
  shows "promise (snd (deliver t)) = promise t"
proof (cases "promise t = Pending")
  case False
  then show ?thesis by (rule deliver_settled)
next
  case True
  with assms have "\<forall>v. promise (snd (deliver t)) \<noteq> Resolved v"
    by simp
  moreover have "\<forall>e. promise (snd (deliver t)) \<noteq> Rejected e"
    using True deliver_never_rejects [of t] by auto
  ultimately show ?thesis
    using True by (cases "promise (snd (deliver t))") auto
qed

lemma vals_map: "map promise ts = map promise ts' \<Longrightarrow> vals ts = vals ts'"
proof (induction ts arbitrary: ts')
  case Nil
  then show ?case by simp
next
  case (Cons t ts)
  then obtain u us where u: "ts' = u # us" by (cases ts') auto
  with Cons.prems have "promise t = promise u" "map promise ts = map promise us"
    by simp_all
  with Cons.IH [of us] u show ?case by (cases "promise u") simp_all
qed

lemma last_promise_map:
  "map promise ts = map promise ts' \<Longrightarrow> ts \<noteq> [] \<Longrightarrow> promise (last ts) = promise (last ts')"
  by (metis last_map map_is_Nil_conv)

lemma emit_seq_quiet:
  assumes "inv_seq cmds s" and k: "k < length (tasks s)"
    and same: "promise (snd (deliver (tasks s ! k))) = promise (tasks s ! k)"
  shows "inv_seq cmds (emit k s)"
proof -
  let ?ts' = "(tasks s)[k := snd (deliver (tasks s ! k))]"
  have m: "map promise ?ts' = map promise (tasks s)"
    using same k by (simp add: map_update list_update_same_conv)
  have ne: "tasks s \<noteq> []"
    using k by auto
  have v: "vals ?ts' = vals (tasks s)"
    using m by (rule vals_map)
  have l: "promise (last ?ts') = promise (last (tasks s))"
    using m ne by (intro last_promise_map) auto
  have all: "\<forall>i. Suc i < length (tasks s) \<longrightarrow> (\<exists>v. promise (?ts' ! i) = Resolved v)"
  proof (intro allI impI)
    fix i assume i: "Suc i < length (tasks s)"
    then have "promise (?ts' ! i) = promise (tasks s ! i)"
      using m by (metis Suc_lessD length_map nth_map length_list_update)
    with i assms(1) show "\<exists>v. promise (?ts' ! i) = Resolved v"
      by (simp add: inv_seq_def)
  qed
  have io: "in_order (trace s @ map (Pair k) (fst (deliver (tasks s ! k))))"
    using assms(1) deliver_no_dispatch
    by (intro in_order_append_quiet) (auto simp: inv_seq_def)
  from assms(1) v l all io ne show ?thesis
    by (auto simp: inv_seq_def split: pstate.splits)
qed

lemma seq_next_seq:
  assumes c: "inv_common os g cmds s"
    and q: "queue s = drop (length (tasks s)) cmds"
    and r: "results s = vals (tasks s)"
    and fin: "\<forall>i < length (tasks s). \<exists>v. promise (tasks s ! i) = Resolved v"
    and io: "in_order (trace s)"
    and b: "batch s = Pending"
  shows "inv_seq cmds (seq_next os s)"
proof (cases "queue s")
  case Nil
  with q c have len: "length (tasks s) = length cmds"
    by (simp add: inv_common_def)
  show ?thesis
  proof (cases "tasks s = []")
    case True
    with Nil r len io show ?thesis
      by (simp add: seq_next_Nil inv_seq_def)
  next
    case False
    then have "last (tasks s) = tasks s ! (length (tasks s) - 1)"
      by (rule last_conv_nth)
    with fin False obtain v where "promise (last (tasks s)) = Resolved v"
      by (metis diff_less length_greater_0_conv zero_less_one)
    with Nil r len io fin False q show ?thesis
      by (simp add: seq_next_Nil inv_seq_def)
  qed
next
  case (Cons cmd rest)
  let ?n = "length (tasks s)"
  from Cons q have d: "drop ?n cmds = cmd # rest"
    by simp
  from drop_eq_ConsD [OF d] have n: "?n < length cmds" and cmd: "cmd = cmds ! ?n"
    and rest: "rest = drop (Suc ?n) cmds"
    by simp_all
  from c have g: "globalOpts s = g"
    by (simp add: inv_common_def)
  let ?t = "snd (run os ?n (resolvedOpts g cmd))"
  have pt: "promise ?t = (if runnable (resolvedOpts g cmd) then Pending else Rejected TypeError)"
    by (rule run_promise)
  have v: "vals (tasks s @ [?t]) = vals (tasks s)"
    using pt by (simp add: vals_append)
  have all: "\<forall>i. Suc i < Suc ?n \<longrightarrow> (\<exists>v. promise ((tasks s @ [?t]) ! i) = Resolved v)"
    using fin by (simp add: nth_append)
  have prev: "?n = 0 \<or> (\<exists>v. (?n - 1, Resolve v) \<in> set (trace s))"
  proof (cases "?n = 0")
    case False
    then have lt: "?n - 1 < ?n"
      by simp
    with fin obtain v where "promise (tasks s ! (?n - 1)) = Resolved v"
      by blast
    with lt c have "(?n - 1, Resolve v) \<in> set (trace s)"
      unfolding inv_common_def by blast
    then show ?thesis by blast
  qed simp
  have io': "in_order (trace s @ fst (dispatch os g ?n cmd))"
    unfolding dispatch_eq fst_conv
    using io prev run_no_dispatch by (intro in_order_append_dispatch) auto
  from r v all io' rest b g pt show ?thesis
    by (simp add: seq_next_Cons [OF Cons] inv_seq_def)
qed

section \<open>The invariant holds after every schedule\<close>

lemma list_update_last:
  assumes "Suc k = length ts"
  shows "ts[k := x] = butlast ts @ [x]"
proof -
  from assms have ne: "ts \<noteq> []" by auto
  then have "ts = butlast ts @ [last ts]" by simp
  moreover from assms have "length (butlast ts) = k" by simp
  ultimately show ?thesis
    by (metis list_update_length)
qed

lemma seq_next_parallel [simp]: "parallel (seq_next os s) = parallel s"
  by (cases "queue s") (simp_all add: seq_next_Nil seq_next_Cons)

lemma step_seq_inv:
  assumes c: "inv_common os g cmds s" and q: "inv_seq cmds s" and np: "\<not> parallel s"
  shows "inv_common os g cmds (step os k s) \<and> inv_seq cmds (step os k s) \<and> \<not> parallel (step os k s)"
proof (cases "k < length (tasks s)")
  case False
  with assms show ?thesis by (simp add: step_outside)
next
  case k: True
  let ?t = "tasks s ! k"
  let ?t' = "snd (deliver ?t)"
  show ?thesis
  proof (cases "promise ?t = Pending \<and> (\<exists>v. promise ?t' = Resolved v)")
    case False
    then have st: "step os k s = emit k s"
      using np k by (intro step_seq_other) auto
    from False have "promise ?t' = promise ?t"
      by (rule deliver_keeps_promise)
    with q k have "inv_seq cmds (emit k s)"
      by (intro emit_seq_quiet) auto
    with emit_common [OF c k] np st show ?thesis
      by simp
  next
    case True
    then obtain v where p: "promise ?t = Pending" and p': "promise ?t' = Resolved v"
      by blast
    let ?s1 = "(emit k s)\<lparr>results := results s @ [v]\<rparr>"
    have st: "step os k s = seq_next os ?s1"
      using np k p p' by (rule step_seq_resolved)
    have c1: "inv_common os g cmds ?s1"
      using emit_common [OF c k] by simp
    have last: "Suc k = length (tasks s)"
    proof (rule ccontr)
      assume "Suc k \<noteq> length (tasks s)"
      with k have "Suc k < length (tasks s)" by simp
      with q obtain w where "promise ?t = Resolved w"
        unfolding inv_seq_def by blast
      with p show False by simp
    qed
    have upd: "(tasks s)[k := ?t'] = butlast (tasks s) @ [?t']"
      using last by (rule list_update_last)
    have old: "tasks s = butlast (tasks s) @ [?t]"
      using last by (metis list_update_id list_update_last)
    have "vals (tasks s) = vals (butlast (tasks s))"
      by (subst old) (simp add: vals_append p)
    moreover have "vals ((tasks s)[k := ?t']) = vals (butlast (tasks s)) @ [v]"
      by (subst upd) (simp add: vals_append p')
    ultimately have r1: "results ?s1 = vals (tasks ?s1)"
      using q by (simp add: inv_seq_def)
    have q1: "queue ?s1 = drop (length (tasks ?s1)) cmds"
      using q by (simp add: inv_seq_def)
    have fin: "\<forall>i < length (tasks ?s1). \<exists>w. promise (tasks ?s1 ! i) = Resolved w"
    proof (intro allI impI)
      fix i assume i: "i < length (tasks ?s1)"
      show "\<exists>w. promise (tasks ?s1 ! i) = Resolved w"
      proof (cases "i = k")
        case True
        with k p' show ?thesis by simp
      next
        case False
        with i last have "Suc i < length (tasks s)" by simp
        with q False show ?thesis
          by (simp add: inv_seq_def)
      qed
    qed
    have io: "in_order (trace ?s1)"
      using q deliver_no_dispatch by (auto simp: inv_seq_def intro!: in_order_append_quiet)
    have "last (tasks s) = ?t"
      using last by (metis old snoc_eq_iff_butlast)
    with q p k have b: "batch ?s1 = Pending"
      by (auto simp: inv_seq_def split: if_splits)
    from seq_next_common [OF c1 q1] seq_next_seq [OF c1 q1 r1 fin io b] st np show ?thesis
      by simp
  qed
qed

lemma step_inv:
  assumes "batch_inv os g cmds s"
  shows "batch_inv os g cmds (step os k s)"
proof (cases "parallel s")
  case True
  with assms have c: "inv_common os g cmds s" and p: "inv_par cmds s"
    by (simp_all add: batch_inv_def)
  have "inv_common os g cmds (step os k s)"
  proof (cases "k < length (tasks s)")
    case False
    with c show ?thesis by (simp add: step_outside)
  next
    case k: True
    with emit_common [OF c k] True show ?thesis
      by (simp add: step_par)
  qed
  with step_par_inv [OF p True, of os k] show ?thesis
    by (simp add: batch_inv_def)
next
  case False
  with assms have c: "inv_common os g cmds s" and q: "inv_seq cmds s"
    by (simp_all add: batch_inv_def)
  from step_seq_inv [OF c q False, of k] show ?thesis
    by (simp add: batch_inv_def)
qed

lemma fold_step_inv: "batch_inv os g cmds s \<Longrightarrow> batch_inv os g cmds (fold (step os) schedule s)"
  by (induction schedule arbitrary: s) (simp_all add: step_inv)

lemma step_parallel [simp]: "parallel (step os k s) = parallel s"
  by (cases "k < length (tasks s)"; cases "parallel s")
    (auto simp: step_def Let_def split: pstate.splits)

lemma fold_step_parallel [simp]: "parallel (fold (step os) schedule s) = parallel s"
  by (induction schedule arbitrary: s) simp_all

lemma runMultiple_parallel:
  "normalize_commands input = Some cmds \<Longrightarrow>
     parallel (runMultiple os cwd input options) =
       (get (globalOpts_of cwd options) ''mode'' = Str PARALLEL)"
  by (simp add: runMultiple_def Let_def split: prod.splits)

lemma runMultiple_inv:
  assumes "normalize_commands input = Some cmds"
  shows "batch_inv os (globalOpts_of cwd options) cmds (runMultiple os cwd input options)"
proof (cases "get (globalOpts_of cwd options) ''mode'' = Str PARALLEL")
  case True
  let ?g = "globalOpts_of cwd options"
  let ?d = "dispatch_all os ?g 0 cmds"
  have rm: "runMultiple os cwd input options =
      \<lparr>tasks = snd ?d, queue = [], results = [], batch = promise_all (snd ?d),
       trace = fst ?d, parallel = True, globalOpts = ?g\<rparr>"
    using assms True by (simp add: runMultiple_def Let_def split: prod.splits)
  have len: "length (snd ?d) = length cmds"
    by (simp add: dispatch_all_tasks)
  have tasks: "\<forall>i < length cmds. task_inv os ?g cmds i (snd ?d ! i)"
    by (simp add: dispatch_all_tasks task_inv_run)
  have rec: "\<forall>i < length cmds. \<forall>v. promise (snd ?d ! i) \<noteq> Resolved v"
    by (simp add: dispatch_all_tasks run_promise)
  have disp: "dispatches (fst ?d) = map (\<lambda>i. (i, resolvedOpts ?g (cmds ! i))) [0..<length cmds]"
    by (simp add: dispatch_all_dispatches)
  have unc: "\<forall>i u. (i, Uncaught u) \<notin> set (fst ?d)"
    using dispatch_all_quiet by blast
  from len tasks rec disp unc show ?thesis
    unfolding rm by (simp add: batch_inv_def inv_common_def inv_par_def)
next
  case False
  let ?g = "globalOpts_of cwd options"
  let ?s0 = "\<lparr>tasks = [], queue = cmds, results = [], batch = Pending,
              trace = [], parallel = False, globalOpts = ?g\<rparr>"
  have rm: "runMultiple os cwd input options = seq_next os ?s0"
    using assms False by (simp add: runMultiple_def Let_def)
  have c0: "inv_common os ?g cmds ?s0"
    by (simp add: inv_common_def)
  have "inv_common os ?g cmds (seq_next os ?s0)"
    by (rule seq_next_common [OF c0]) simp
  moreover have "inv_seq cmds (seq_next os ?s0)"
    by (rule seq_next_seq [OF c0]) (simp_all add: in_order_Nil)
  ultimately show ?thesis
    unfolding rm by (simp add: batch_inv_def)
qed

lemma execute_inv:
  "normalize_commands input = Some cmds \<Longrightarrow>
     batch_inv os (globalOpts_of cwd options) cmds (execute os cwd input options schedule)"
  unfolding execute_def by (intro fold_step_inv runMultiple_inv)

lemma execute_parallel:
  "normalize_commands input = Some cmds \<Longrightarrow>
     parallel (execute os cwd input options schedule) =
       (get (globalOpts_of cwd options) ''mode'' = Str PARALLEL)"
  by (simp add: execute_def runMultiple_parallel)

lemma execute_invalid:
  assumes "normalize_commands input = None"
  shows "execute os cwd input options schedule =
     \<lparr>tasks = [], queue = [], results = [], batch = Rejected (Str (js ''Invalid input'')),
      trace = [], parallel = (get (globalOpts_of cwd options) ''mode'' = Str PARALLEL),
      globalOpts = globalOpts_of cwd options\<rparr>"
proof -
  have "fold (step os) schedule s = s" if "tasks s = []" for s
    using that by (induction schedule) (simp_all add: step_outside)
  with assms show ?thesis
    by (simp add: execute_def runMultiple_def Let_def)
qed

section \<open>What the invariant gives\<close>

lemma eventual_run:
  "eventual (snd (run os i options)) =
     (if runnable options
      then (case first_exit (pending (snd (run os i options))) of
              Some v \<Rightarrow> Resolved v
            | None \<Rightarrow> Pending)
      else Rejected TypeError)"
  by (simp add: eventual_def run_promise)

lemma task_rejected:
  assumes "task_inv os g cmds i t" and "promise t = Rejected e"
  shows "e = TypeError \<and> \<not> runnable (resolvedOpts g (cmds ! i))"
proof -
  from assms have "eventual (snd (run os i (resolvedOpts g (cmds ! i)))) = Rejected e"
    by (simp add: task_inv_def eventual_def)
  then show ?thesis
    by (auto simp: eventual_run split: if_splits option.splits)
qed

lemma task_resolved:
  assumes "task_inv os g cmds i t" and "promise t = Resolved v"
  shows "eventual (snd (run os i (resolvedOpts g (cmds ! i)))) = Resolved v"
  using assms by (simp add: task_inv_def eventual_def)

lemma inv_rejected:
  assumes "batch_inv os g cmds s" and "batch s = Rejected e"
  shows "e = TypeError \<and> (\<exists>i < length cmds. \<not> runnable (resolvedOpts g (cmds ! i)))"
proof -
  from assms(1) have c: "inv_common os g cmds s"
    by (simp add: batch_inv_def)
  have "\<exists>i < length (tasks s). promise (tasks s ! i) = Rejected e"
  proof (cases "parallel s")
    case True
    with assms have "first_rejected (tasks s) = Some e"
      by (simp add: batch_inv_def inv_par_def promise_all_Rejected [symmetric])
    then show ?thesis by (rule first_rejected_Some)
  next
    case False
    with assms have ne: "tasks s \<noteq> []" and "promise (last (tasks s)) = Rejected e"
      by (auto simp: batch_inv_def inv_seq_def split: if_splits pstate.splits)
    then have "promise (tasks s ! (length (tasks s) - 1)) = Rejected e"
      by (simp add: last_conv_nth)
    with ne show ?thesis
      by (intro exI [of _ "length (tasks s) - 1"]) simp
  qed
  then obtain i where i: "i < length (tasks s)" "promise (tasks s ! i) = Rejected e"
    by blast
  with c have "task_inv os g cmds i (tasks s ! i)" "i < length cmds"
    by (simp_all add: inv_common_def)
  with task_rejected [OF this(1) i(2)] show ?thesis
    by blast
qed

lemma inv_resolved:
  assumes "batch_inv os g cmds s" and "batch s = Resolved v"
  shows "\<exists>rs. v = Arr rs \<and> length (tasks s) = length cmds \<and>
           map promise (tasks s) = map Resolved rs"
proof (cases "parallel s")
  case True
  with assms show ?thesis
    by (auto simp: batch_inv_def inv_par_def promise_all_Resolved [symmetric] dest: sym)
next
  case False
  with assms have c: "inv_common os g cmds s" and q: "inv_seq cmds s"
    by (simp_all add: batch_inv_def)
  show ?thesis
  proof (cases "tasks s = []")
    case True
    with q assms(2) show ?thesis
      by (simp add: inv_seq_def)
  next
    case ne: False
    with q assms(2) obtain w where w: "promise (last (tasks s)) = Resolved w"
      and qe: "queue s = []" and v: "v = Arr (results s)"
      by (auto simp: inv_seq_def split: pstate.splits)
    from q qe c have len: "length (tasks s) = length cmds"
      by (simp add: inv_seq_def inv_common_def)
    have all: "\<forall>i < length (tasks s). \<exists>u. promise (tasks s ! i) = Resolved u"
    proof (intro allI impI)
      fix i assume i: "i < length (tasks s)"
      show "\<exists>u. promise (tasks s ! i) = Resolved u"
      proof (cases "Suc i = length (tasks s)")
        case True
        with w ne show ?thesis
          by (metis diff_Suc_1 last_conv_nth)
      next
        case False
        with i have "Suc i < length (tasks s)" by simp
        with q show ?thesis by (simp add: inv_seq_def)
      qed
    qed
    have "map promise ts = map Resolved (vals ts)"
      if "\<forall>t \<in> set ts. \<exists>u. promise t = Resolved u" for ts
      using that by (induction ts) auto
    moreover have "\<forall>t \<in> set (tasks s). \<exists>u. promise t = Resolved u"
      using all by (auto simp: in_set_conv_nth)
    ultimately have "map promise (tasks s) = map Resolved (vals (tasks s))"
      by blast
    with q v len show ?thesis
      by (simp add: inv_seq_def)
  qed
qed

lemma inv_resolved_slots:
  assumes "batch_inv os g cmds s" and "batch s = Resolved v"
  shows "\<exists>rs. v = Arr rs \<and> length rs = length cmds \<and>
           (\<forall>i < length cmds.
              promise (tasks s ! i) = Resolved (rs ! i) \<and>
              (i, Resolve (rs ! i)) \<in> set (trace s) \<and>
              eventual (snd (run os i (resolvedOpts g (cmds ! i)))) = Resolved (rs ! i))"
proof -
  from inv_resolved [OF assms] obtain rs where rs: "v = Arr rs" "length (tasks s) = length cmds"
    "map promise (tasks s) = map Resolved rs"
    by blast
  from rs(3) have len: "length rs = length (tasks s)"
    by (metis length_map)
  from assms(1) have c: "inv_common os g cmds s"
    by (simp add: batch_inv_def)
  have "promise (tasks s ! i) = Resolved (rs ! i) \<and>
        (i, Resolve (rs ! i)) \<in> set (trace s) \<and>
        eventual (snd (run os i (resolvedOpts g (cmds ! i)))) = Resolved (rs ! i)"
    if i: "i < length cmds" for i
  proof -
    from i rs(2) have it: "i < length (tasks s)" by simp
    with rs(3) len have p: "promise (tasks s ! i) = Resolved (rs ! i)"
      by (metis nth_map)
    from c it have ti: "task_inv os g cmds i (tasks s ! i)"
      by (simp add: inv_common_def)
    from c it p have "(i, Resolve (rs ! i)) \<in> set (trace s)"
      unfolding inv_common_def by blast
    with p task_resolved [OF ti p] show ?thesis
      by simp
  qed
  with rs len show ?thesis
    by auto
qed


lemma normalize_None:
  "normalize_commands input = None \<longleftrightarrow>
     (case input of Str s \<Rightarrow> False | Obj kvs \<Rightarrow> False | Arr xs \<Rightarrow> False | TypeError \<Rightarrow> False
      | _ \<Rightarrow> True)"
  by (cases input) (auto simp: normalize_commands_def Let_def)

section \<open>The batch of two commands, step by step\<close>

lemmas object_eval = Object_assign_def assign1_def get_Cons get_Nil put_def

lemma ex_normalize:
  "normalize_commands ex_input =
     Some [Obj [(''command'', Str (js ''a'')), (''cwd'', Str (js ''/var'')), (''onData'', Fn (UserFn 7))],
           Obj [(''command'', Str (js ''b''))]]"
  by (simp add: normalize_commands_def wrap_def ex_input_def)

lemma ex_globalOpts: "globalOpts_of c (ex_options m) = ex_g m"
  by (simp add: globalOpts_of_def defaultOpts_def DEFAULT_VERBOSE_def ex_options_def ex_g_def
      object_eval)

lemma ex_resolved0:
  "resolvedOpts (ex_g m)
     (Obj [(''command'', Str (js ''a'')), (''cwd'', Str (js ''/var'')), (''onData'', Fn (UserFn 7))]) =
   ex_ro0 m"
  by (simp add: resolvedOpts_def ex_g_def ex_ro0_def object_eval)

lemma ex_resolved1: "resolvedOpts (ex_g m) (Obj [(''command'', Str (js ''b''))]) = ex_ro1 m"
  by (simp add: resolvedOpts_def ex_g_def ex_ro1_def object_eval)

lemma tokenize_a: "tokenize (Str (js ''a'')) = Ok (js ''a'', [])"
  by (simp add: tokenize_eval)

lemma tokenize_b: "tokenize (Str (js ''b'')) = Ok (js ''b'', [])"
  by (simp add: tokenize_eval)

lemma ex_run0:
  "run ex_os 0 (ex_ro0 m) =
     ([Spawn (js ''a'') [] [(''cwd'', Str (js ''/var''))]],
      \<lparr>promise = Pending, opts = ex_ro0 m, pending = [Stdout (js ''1''), Close (Num 2)]\<rparr>)"
proof -
  have "get (ex_ro0 m) ''verbose'' = Bool False" "get (ex_ro0 m) ''command'' = Str (js ''a'')"
    "spawnProcessOpts (ex_ro0 m) = [(''cwd'', Str (js ''/var''))]"
    by (simp_all add: ex_ro0_def get_Cons get_Nil spawnProcessOpts_def spawnOptsAllowedKeys_def put_def)
  then show ?thesis
    by (simp add: run_def log_if_verbose_def tokenize_a ex_os_def)
qed

lemma ex_run1:
  "run ex_os (Suc 0) (ex_ro1 m) =
     ([Spawn (js ''b'') [] [(''cwd'', Str (js ''/tmp''))]],
      \<lparr>promise = Pending, opts = ex_ro1 m, pending = [Stdout (js ''2''), Close (Num 0)]\<rparr>)"
proof -
  have "get (ex_ro1 m) ''verbose'' = Bool False" "get (ex_ro1 m) ''command'' = Str (js ''b'')"
    "spawnProcessOpts (ex_ro1 m) = [(''cwd'', Str (js ''/tmp''))]"
    by (simp_all add: ex_ro1_def get_Cons get_Nil spawnProcessOpts_def spawnOptsAllowedKeys_def put_def)
  then show ?thesis
    by (simp add: run_def log_if_verbose_def tokenize_b ex_os_def)
qed

lemma ex_mode: "get (ex_g m) ''mode'' = Str m"
  by (simp add: ex_g_def get_Cons)

lemma ex_listen0:
  "listener (ex_ro0 m) (Stdout d) = [OnData (UserFn 7) d]"
  "listener (ex_ro0 m) (Close code) = [Resolve code]"
  by (simp_all add: ex_ro0_def log_if_verbose_def get_Cons get_Nil)

lemma ex_listen1:
  "listener (ex_ro1 m) (Stdout d) = []"
  "listener (ex_ro1 m) (Close code) = [Resolve code]"
  by (simp_all add: ex_ro1_def log_if_verbose_def get_Cons get_Nil)

lemmas ex_eval = execute_def runMultiple_def ex_normalize ex_globalOpts ex_mode seq_next_def
  dispatch_def ex_resolved0 ex_resolved1 ex_run0 ex_run1 step_def emit_def deliver_def Let_def
  ex_listen0 ex_listen1 promise_all_def

lemma ex_sequential:
  assumes "m \<noteq> PARALLEL"
  shows "execute ex_os c ex_input (ex_options m) [0, 0, 1, 1] =
     \<lparr>tasks = [\<lparr>promise = Resolved (Num 2), opts = ex_ro0 m, pending = []\<rparr>,
               \<lparr>promise = Resolved (Num 0), opts = ex_ro1 m, pending = []\<rparr>],
      queue = [], results = [Num 2, Num 0], batch = Resolved (Arr [Num 2, Num 0]),
      trace = [(0, Dispatch (ex_ro0 m)), (0, Spawn (js ''a'') [] [(''cwd'', Str (js ''/var''))]),
               (0, OnData (UserFn 7) (js ''1'')), (0, Resolve (Num 2)),
               (1, Dispatch (ex_ro1 m)), (1, Spawn (js ''b'') [] [(''cwd'', Str (js ''/tmp''))]),
               (1, Resolve (Num 0))],
      parallel = False, globalOpts = ex_g m\<rparr>"
  using assms by (simp add: ex_eval del: listener.simps)

lemma ex_parallel:
  "execute ex_os c ex_input (ex_options PARALLEL) [1, 1, 0, 0] =
     \<lparr>tasks = [\<lparr>promise = Resolved (Num 2), opts = ex_ro0 PARALLEL, pending = []\<rparr>,
               \<lparr>promise = Resolved (Num 0), opts = ex_ro1 PARALLEL, pending = []\<rparr>],
      queue = [], results = [], batch = Resolved (Arr [Num 2, Num 0]),
      trace = [(0, Dispatch (ex_ro0 PARALLEL)), (0, Spawn (js ''a'') [] [(''cwd'', Str (js ''/var''))]),
               (1, Dispatch (ex_ro1 PARALLEL)), (1, Spawn (js ''b'') [] [(''cwd'', Str (js ''/tmp''))]),
               (1, Resolve (Num 0)),
               (0, OnData (UserFn 7) (js ''1'')), (0, Resolve (Num 2))],
      parallel = True, globalOpts = ex_g PARALLEL\<rparr>"
  by (simp add: ex_eval del: listener.simps)

lemma ex_parallel_start:
  "runMultiple ex_os c ex_input (ex_options PARALLEL) =
     \<lparr>tasks = [\<lparr>promise = Pending, opts = ex_ro0 PARALLEL, pending = [Stdout (js ''1''), Close (Num 2)]\<rparr>,
               \<lparr>promise = Pending, opts = ex_ro1 PARALLEL, pending = [Stdout (js ''2''), Close (Num 0)]\<rparr>],
      queue = [], results = [], batch = Pending,
      trace = [(0, Dispatch (ex_ro0 PARALLEL)), (0, Spawn (js ''a'') [] [(''cwd'', Str (js ''/var''))]),
               (1, Dispatch (ex_ro1 PARALLEL)), (1, Spawn (js ''b'') [] [(''cwd'', Str (js ''/tmp''))])],
      parallel = True, globalOpts = ex_g PARALLEL\<rparr>"
  by (simp add: ex_eval del: listener.simps)

section \<open>Running the children to their end\<close>

lemma all_resolved_map:
  "\<forall>i < length ts. \<exists>v. promise (ts ! i) = Resolved v \<Longrightarrow> map promise ts = map Resolved (vals ts)"
proof (induction ts)
  case Nil
  then show ?case by simp
next
  case (Cons t ts)
  from Cons.prems have "\<exists>v. promise t = Resolved v"
    by (metis length_greater_0_conv list.distinct(1) nth_Cons_0)
  moreover from Cons.prems have "\<forall>i < length ts. \<exists>v. promise (ts ! i) = Resolved v"
    by (metis Suc_less_eq length_Cons nth_Cons_Suc)
  ultimately show ?case
    using Cons.IH by auto
qed

lemma inv_all_resolved:
  assumes "batch_inv os g cmds s" and len: "length (tasks s) = length cmds"
    and all: "\<forall>i < length cmds. \<exists>v. promise (tasks s ! i) = Resolved v"
  shows "batch s = Resolved (Arr (vals (tasks s)))"
proof (cases "parallel s")
  case True
  from all len have "map promise (tasks s) = map Resolved (vals (tasks s))"
    by (intro all_resolved_map) simp
  then have "promise_all (tasks s) = Resolved (Arr (vals (tasks s)))"
    unfolding promise_all_Resolved by blast
  with assms(1) True show ?thesis
    by (simp add: batch_inv_def inv_par_def)
next
  case False
  with assms(1) have q: "inv_seq cmds s"
    by (simp add: batch_inv_def)
  show ?thesis
  proof (cases "tasks s = []")
    case True
    with q show ?thesis by (simp add: inv_seq_def)
  next
    case ne: False
    then have "0 < length cmds"
      using len by (cases "tasks s") auto
    with ne have "last (tasks s) = tasks s ! (length cmds - 1)" "length cmds - 1 < length cmds"
      using len by (simp_all add: last_conv_nth)
    with all obtain v where "promise (last (tasks s)) = Resolved v"
      by metis
    with q ne show ?thesis
      by (simp add: inv_seq_def)
  qed
qed








section \<open>The batch result\<close>





section \<open>Parallel mode\<close>

text \<open>
  Claim C2. In parallel mode, when \<^verbatim>\<open>runMultiple\<close> returns, before any event, every command has
  been dispatched, in input order, each with its own resolved options. After every schedule
  of events, if the batch promise is resolved then its value is an array with one slot for
  each command, the promise of every command is resolved and its call of \<^verbatim>\<open>resolve\<close> is in the
  trace, and the slot at position \<open>i\<close> holds the value the \<open>i\<close>-th command resolves with (the
  value of the first \<^verbatim>\<open>close\<close> or \<^verbatim>\<open>error\<close> event of its child), whatever the order in which the
  children's events arrived. Conversely, as soon as the promise of every command is resolved,
  the batch promise is resolved.
\<close>

theorem parallel_positional:
  assumes "normalize_commands input = Some cmds"
    and "get (globalOpts_of cwd options) ''mode'' = Str PARALLEL"
  shows "dispatches (trace (runMultiple os cwd input options)) =
           map (\<lambda>i. (i, resolvedOpts (globalOpts_of cwd options) (cmds ! i))) [0..<length cmds] \<and>
    (\<forall>v. batch (execute os cwd input options schedule) = Resolved v \<longrightarrow>
       (\<exists>rs. v = Arr rs \<and> length rs = length cmds \<and>
          (\<forall>i < length cmds.
             promise (tasks (execute os cwd input options schedule) ! i) = Resolved (rs ! i) \<and>
             (i, Resolve (rs ! i)) \<in> set (trace (execute os cwd input options schedule)) \<and>
             eventual (snd (run os i (resolvedOpts (globalOpts_of cwd options) (cmds ! i)))) =
               Resolved (rs ! i)))) \<and>
    ((\<forall>i < length cmds. \<exists>v.
         promise (tasks (execute os cwd input options schedule) ! i) = Resolved v) \<longrightarrow>
       (\<exists>rs. batch (execute os cwd input options schedule) = Resolved (Arr rs)))"
proof -
  let ?g = "globalOpts_of cwd options"
  have i0: "batch_inv os ?g cmds (runMultiple os cwd input options)"
    using assms(1) by (rule runMultiple_inv)
  have "parallel (runMultiple os cwd input options)"
    using assms by (simp add: runMultiple_parallel)
  with i0 have "dispatches (trace (runMultiple os cwd input options)) =
      map (\<lambda>i. (i, resolvedOpts ?g (cmds ! i))) [0..<length cmds]"
    by (simp add: batch_inv_def inv_common_def inv_par_def)
  moreover have i: "batch_inv os ?g cmds (execute os cwd input options schedule)"
    using assms(1) by (rule execute_inv)
  moreover have "\<exists>rs. batch (execute os cwd input options schedule) = Resolved (Arr rs)"
    if all: "\<forall>i < length cmds. \<exists>v.
      promise (tasks (execute os cwd input options schedule) ! i) = Resolved v"
  proof -
    have "parallel (execute os cwd input options schedule)"
      using assms by (simp add: execute_parallel)
    with i have "length (tasks (execute os cwd input options schedule)) = length cmds"
      by (simp add: batch_inv_def inv_par_def)
    from inv_all_resolved [OF i this all] show ?thesis
      by blast
  qed
  ultimately show ?thesis
    using inv_resolved_slots by blast
qed

text \<open>
  The theorem at the batch of two commands, with the second child finishing before the
  first one: both commands are dispatched at once, in input order; the callback of the
  first command runs after the second command has resolved; the result is in input order.
\<close>

theorem parallel_positional_witness:
  "get (globalOpts_of (js ''/w'') (ex_options PARALLEL)) ''mode'' = Str PARALLEL \<and>
   dispatches (trace (runMultiple ex_os (js ''/w'') ex_input (ex_options PARALLEL))) =
     [(0, ex_ro0 PARALLEL), (1, ex_ro1 PARALLEL)] \<and>
   trace (execute ex_os (js ''/w'') ex_input (ex_options PARALLEL) [1, 1, 0, 0]) =
     [(0, Dispatch (ex_ro0 PARALLEL)), (0, Spawn (js ''a'') [] [(''cwd'', Str (js ''/var''))]),
      (1, Dispatch (ex_ro1 PARALLEL)), (1, Spawn (js ''b'') [] [(''cwd'', Str (js ''/tmp''))]),
      (1, Resolve (Num 0)), (0, OnData (UserFn 7) (js ''1'')), (0, Resolve (Num 2))] \<and>
   batch (execute ex_os (js ''/w'') ex_input (ex_options PARALLEL) [1, 1, 0, 0]) =
     Resolved (Arr [Num 2, Num 0]) \<and>
   eventual (snd (run ex_os 0 (ex_ro0 PARALLEL))) = Resolved (Num 2) \<and>
   eventual (snd (run ex_os 1 (ex_ro1 PARALLEL))) = Resolved (Num 0)"
proof -
  let ?c = "js ''/w''"
  let ?s = "execute ex_os ?c ex_input (ex_options PARALLEL) [1, 1, 0, 0]"
  have m: "get (globalOpts_of ?c (ex_options PARALLEL)) ''mode'' = Str PARALLEL"
    by (simp add: ex_globalOpts ex_mode)
  have b: "batch ?s = Resolved (Arr [Num 2, Num 0])"
    by (subst ex_parallel) simp
  have t: "trace ?s =
     [(0, Dispatch (ex_ro0 PARALLEL)), (0, Spawn (js ''a'') [] [(''cwd'', Str (js ''/var''))]),
      (1, Dispatch (ex_ro1 PARALLEL)), (1, Spawn (js ''b'') [] [(''cwd'', Str (js ''/tmp''))]),
      (1, Resolve (Num 0)), (0, OnData (UserFn 7) (js ''1'')), (0, Resolve (Num 2))]"
    by (subst ex_parallel) simp
  note inst = parallel_positional [OF ex_normalize m, of ex_os "[1, 1, 0, 0]"]
  from inst have d: "dispatches (trace (runMultiple ex_os ?c ex_input (ex_options PARALLEL))) =
      [(0, ex_ro0 PARALLEL), (1, ex_ro1 PARALLEL)]"
    by (simp add: ex_globalOpts ex_resolved0 ex_resolved1 upt_rec)
  from inst b obtain rs where rs: "Arr [Num 2, Num 0] = Arr rs"
    and slots: "\<forall>i < 2. eventual (snd (run ex_os i
        (resolvedOpts (globalOpts_of ?c (ex_options PARALLEL))
          ([Obj [(''command'', Str (js ''a'')), (''cwd'', Str (js ''/var'')), (''onData'', Fn (UserFn 7))],
            Obj [(''command'', Str (js ''b''))]] ! i)))) = Resolved (rs ! i)"
    by auto
  from slots rs have "eventual (snd (run ex_os 0 (ex_ro0 PARALLEL))) = Resolved (Num 2)"
    "eventual (snd (run ex_os 1 (ex_ro1 PARALLEL))) = Resolved (Num 0)"
    by (auto simp: ex_globalOpts ex_resolved0 ex_resolved1 dest: spec [of _ 0] spec [of _ 1])
  with m d t b show ?thesis
    by blast
qed

section \<open>Sequential mode\<close>

text \<open>
  Claim C3. In sequential mode (the mode is anything but the string \<^verbatim>\<open>parallel\<close>), after every
  schedule of events: wherever the trace has the dispatch of the command at position
  \<open>i + 1\<close>, a call of \<^verbatim>\<open>resolve\<close> for the command at position \<open>i\<close> comes before it, with whatever
  value (an exit code or an error); the commands dispatched so far are the first commands of
  the input, dispatched in input order; \<^verbatim>\<open>results\<close> holds the values of the resolved commands
  in dispatch order; a resolved batch carries at position \<open>i\<close> the value the \<open>i\<close>-th command
  resolved with; and once all commands have been dispatched and have resolved, the batch is
  resolved with \<^verbatim>\<open>results\<close>.
\<close>

theorem sequential_order:
  assumes "normalize_commands input = Some cmds"
    and "get (globalOpts_of cwd options) ''mode'' \<noteq> Str PARALLEL"
  shows "(\<forall>pre i ro post.
            trace (execute os cwd input options schedule) = pre @ (Suc i, Dispatch ro) # post \<longrightarrow>
            (\<exists>v. (i, Resolve v) \<in> set pre)) \<and>
    length (tasks (execute os cwd input options schedule)) \<le> length cmds \<and>
    dispatches (trace (execute os cwd input options schedule)) =
      map (\<lambda>i. (i, resolvedOpts (globalOpts_of cwd options) (cmds ! i)))
        [0..<length (tasks (execute os cwd input options schedule))] \<and>
    results (execute os cwd input options schedule) =
      vals (tasks (execute os cwd input options schedule)) \<and>
    (\<forall>v. batch (execute os cwd input options schedule) = Resolved v \<longrightarrow>
       v = Arr (results (execute os cwd input options schedule)) \<and>
       length (results (execute os cwd input options schedule)) = length cmds \<and>
       (\<forall>i < length cmds.
          eventual (snd (run os i (resolvedOpts (globalOpts_of cwd options) (cmds ! i)))) =
            Resolved (results (execute os cwd input options schedule) ! i))) \<and>
    (length (tasks (execute os cwd input options schedule)) = length cmds \<and>
     (\<forall>i < length cmds. \<exists>v.
        promise (tasks (execute os cwd input options schedule) ! i) = Resolved v) \<longrightarrow>
       batch (execute os cwd input options schedule) =
         Resolved (Arr (results (execute os cwd input options schedule))))"
proof -
  let ?g = "globalOpts_of cwd options"
  let ?s = "execute os cwd input options schedule"
  have i: "batch_inv os ?g cmds ?s"
    using assms(1) by (rule execute_inv)
  have np: "\<not> parallel ?s"
    using assms by (simp add: execute_parallel)
  with i have c: "inv_common os ?g cmds ?s" and q: "inv_seq cmds ?s"
    by (simp_all add: batch_inv_def)
  have order: "\<exists>v. (i, Resolve v) \<in> set pre"
    if "trace ?s = pre @ (Suc i, Dispatch ro) # post" for pre i ro post
    using q that by (intro in_order_split [of "trace ?s"]) (simp_all add: inv_seq_def)
  have res: "v = Arr (results ?s) \<and> length (results ?s) = length cmds \<and>
       (\<forall>i < length cmds. eventual (snd (run os i (resolvedOpts ?g (cmds ! i)))) = Resolved (results ?s ! i))"
    if b: "batch ?s = Resolved v" for v
  proof -
    from inv_resolved_slots [OF i b] obtain rs where rs: "v = Arr rs" "length rs = length cmds"
      "\<forall>i < length cmds. eventual (snd (run os i (resolvedOpts ?g (cmds ! i)))) = Resolved (rs ! i)"
      by blast
    from q b np have "v = Arr (results ?s)"
      by (auto simp: inv_seq_def split: if_splits pstate.splits)
    with rs show ?thesis by simp
  qed
  have fin: "batch ?s = Resolved (Arr (results ?s))"
    if "length (tasks ?s) = length cmds \<and>
        (\<forall>i < length cmds. \<exists>v. promise (tasks ?s ! i) = Resolved v)"
  proof -
    from that have "batch ?s = Resolved (Arr (vals (tasks ?s)))"
      by (intro inv_all_resolved [OF i]) simp_all
    with q show ?thesis
      by (simp add: inv_seq_def)
  qed
  from c q order res fin show ?thesis
    unfolding inv_common_def inv_seq_def by blast
qed

text \<open>
  The theorem at the batch of two commands in the default mode: the second command is
  dispatched after the first has resolved with its exit code 2, and the callback of the
  first command has run before.
\<close>

theorem sequential_order_witness:
  "get (globalOpts_of (js ''/w'') (ex_options SEQUENTIAL)) ''mode'' \<noteq> Str PARALLEL \<and>
   trace (execute ex_os (js ''/w'') ex_input (ex_options SEQUENTIAL) [0, 0, 1, 1]) =
     [(0, Dispatch (ex_ro0 SEQUENTIAL)), (0, Spawn (js ''a'') [] [(''cwd'', Str (js ''/var''))]),
      (0, OnData (UserFn 7) (js ''1'')), (0, Resolve (Num 2))] @
     (Suc 0, Dispatch (ex_ro1 SEQUENTIAL)) #
     [(1, Spawn (js ''b'') [] [(''cwd'', Str (js ''/tmp''))]), (1, Resolve (Num 0))] \<and>
   (\<exists>v. (0, Resolve v) \<in> set
     [(0::nat, Dispatch (ex_ro0 SEQUENTIAL)), (0, Spawn (js ''a'') [] [(''cwd'', Str (js ''/var''))]),
      (0, OnData (UserFn 7) (js ''1'')), (0, Resolve (Num 2))]) \<and>
   batch (execute ex_os (js ''/w'') ex_input (ex_options SEQUENTIAL) [0, 0, 1, 1]) =
     Resolved (Arr [Num 2, Num 0]) \<and>
   results (execute ex_os (js ''/w'') ex_input (ex_options SEQUENTIAL) [0, 0, 1, 1]) = [Num 2, Num 0]"
proof -
  let ?c = "js ''/w''"
  let ?s = "execute ex_os ?c ex_input (ex_options SEQUENTIAL) [0, 0, 1, 1]"
  let ?pre = "[(0::nat, Dispatch (ex_ro0 SEQUENTIAL)), (0, Spawn (js ''a'') [] [(''cwd'', Str (js ''/var''))]),
      (0, OnData (UserFn 7) (js ''1'')), (0, Resolve (Num 2))]"
  have neq: "SEQUENTIAL \<noteq> PARALLEL"
    by (simp add: SEQUENTIAL_def PARALLEL_def js_def)
  then have m: "get (globalOpts_of ?c (ex_options SEQUENTIAL)) ''mode'' \<noteq> Str PARALLEL"
    by (simp add: ex_globalOpts ex_mode)
  have t: "trace ?s = ?pre @ (Suc 0, Dispatch (ex_ro1 SEQUENTIAL)) #
     [(1, Spawn (js ''b'') [] [(''cwd'', Str (js ''/tmp''))]), (1, Resolve (Num 0))]"
    by (subst ex_sequential [OF neq]) simp
  have b: "batch ?s = Resolved (Arr [Num 2, Num 0])"
    by (subst ex_sequential [OF neq]) simp
  note inst = sequential_order [OF ex_normalize m, of ex_os "[0, 0, 1, 1]"]
  have before: "\<exists>v. (0, Resolve v) \<in> set ?pre"
    by (rule inst [THEN conjunct1, rule_format, OF t])
  from inst b have "Arr [Num 2, Num 0] = Arr (results ?s)"
    by blast
  then have r: "results ?s = [Num 2, Num 0]"
    by simp
  from m t before b r show ?thesis
    by blast
qed

section \<open>Option overlay\<close>



section \<open>Mode selection\<close>



section \<open>Completion of a command\<close>




section \<open>Verbose tracing\<close>

text \<open>
  Claim C9, as the code has it. Let the resolved logger be a function. If the resolved
  \<^verbatim>\<open>verbose\<close> is truthy, \<^verbatim>\<open>run\<close> first calls the logger once, with the string \<^verbatim>\<open>$\<close>, a blank and then
  the command line, and does not call it again before the events; it then calls \<^verbatim>\<open>spawn\<close> (or
  throws, when the command has no token). Every stdout chunk and every stderr chunk is passed
  to the logger once, before the \<^verbatim>\<open>onData\<close> or \<^verbatim>\<open>onError\<close> callback gets it. The listeners of
  \<^verbatim>\<open>close\<close> and \<^verbatim>\<open>error\<close> do not log. If \<^verbatim>\<open>verbose\<close> is falsy the logger is never called.
\<close>

theorem verbose_logging:
  assumes "get options ''logger'' = Fn f"
  shows "(truthy (get options ''verbose'') \<longrightarrow>
      (\<exists>rest. fst (run os i options) = Log f (str_plus (js ''$ '') (get options ''command'')) # rest \<and>
              (\<forall>g msg. Log g msg \<notin> set rest) \<and>
              (rest = [Reject TypeError] \<or> (\<exists>runCMD cmds sopts. rest = [Spawn runCMD cmds sopts]))) \<and>
      listener options (Stdout d) =
        Log f (Text d) # if_function (get options ''onData'') (\<lambda>g. OnData g d) \<and>
      listener options (Stderr d) =
        Log f (Text d) # if_function (get options ''onError'') (\<lambda>g. OnError g d)) \<and>
    (\<forall>s. get options ''command'' = Str s \<longrightarrow>
       str_plus (js ''$ '') (get options ''command'') = Text (js ''$ '' @ s)) \<and>
    (\<forall>g msg code. Log g msg \<notin> set (listener options (Close code)) \<and>
                   Log g msg \<notin> set (listener options (Error code))) \<and>
    (\<not> truthy (get options ''verbose'') \<longrightarrow>
      (\<forall>g msg e. Log g msg \<notin> set (fst (run os i options)) \<and> Log g msg \<notin> set (listener options e)))"
proof (intro conjI impI allI)
  assume v: "truthy (get options ''verbose'')"
  let ?line = "Log f (str_plus (js ''$ '') (get options ''command''))"
  have l: "log_if_verbose options msg = Ok [Log f msg]" for msg
    using v assms by (simp add: log_if_verbose_def)
  show "\<exists>rest. fst (run os i options) = ?line # rest \<and>
              (\<forall>g msg. Log g msg \<notin> set rest) \<and>
              (rest = [Reject TypeError] \<or> (\<exists>runCMD cmds sopts. rest = [Spawn runCMD cmds sopts]))"
  proof (cases "tokenize (get options ''command'')")
    case (Throw e)
    with tokenize_Throw [OF Throw] show ?thesis
      by (simp add: run_def l)
  next
    case (Ok r)
    then show ?thesis
      by (cases r) (simp add: run_def l)
  qed
  show "listener options (Stdout d) =
        Log f (Text d) # if_function (get options ''onData'') (\<lambda>g. OnData g d)"
    by (simp add: l)
  show "listener options (Stderr d) =
        Log f (Text d) # if_function (get options ''onError'') (\<lambda>g. OnError g d)"
    by (simp add: l)
next
  fix s assume "get options ''command'' = Str s"
  then show "str_plus (js ''$ '') (get options ''command'') = Text (js ''$ '' @ s)"
    by (simp add: str_plus_def)
next
  fix g msg code
  show "Log g msg \<notin> set (listener options (Close code))"
    "Log g msg \<notin> set (listener options (Error code))"
    by (simp_all add: if_function_eq split: jsval.splits)
next
  fix g msg e
  assume v: "\<not> truthy (get options ''verbose'')"
  then have l: "log_if_verbose options m = Ok []" for m
    by (simp add: log_if_verbose_def)
  show "Log g msg \<notin> set (fst (run os i options))"
    by (auto simp: run_def l split: thrown.splits)
  show "Log g msg \<notin> set (listener options e)"
    by (cases e) (auto simp: l if_function_eq split: jsval.splits)
qed

text \<open>
  The theorem at the verbose command \<^verbatim>\<open>ls -la\<close> with the default logger and an \<^verbatim>\<open>onData\<close>
  callback: the logger gets \<^verbatim>\<open>$ ls -la\<close> before \<^verbatim>\<open>spawn\<close> is called, and each chunk before the
  callback.
\<close>

theorem verbose_logging_witness:
  "get [(''verbose'', Bool True), (''logger'', Fn ConsoleLog), (''command'', Str (js ''ls -la'')),
        (''onData'', Fn (UserFn 7))] ''logger'' = Fn ConsoleLog \<and>
   fst (run ex_os 0
      [(''verbose'', Bool True), (''logger'', Fn ConsoleLog), (''command'', Str (js ''ls -la'')),
       (''onData'', Fn (UserFn 7))]) =
     [Log ConsoleLog (Text (js ''$ ls -la'')), Spawn (js ''ls'') [js ''-la''] []] \<and>
   listener
      [(''verbose'', Bool True), (''logger'', Fn ConsoleLog), (''command'', Str (js ''ls -la'')),
       (''onData'', Fn (UserFn 7))] (Stdout (js ''1'')) =
     [Log ConsoleLog (Text (js ''1'')), OnData (UserFn 7) (js ''1'')] \<and>
   listener
      [(''verbose'', Bool True), (''logger'', Fn ConsoleLog), (''command'', Str (js ''ls -la'')),
       (''onData'', Fn (UserFn 7))] (Stderr (js ''2'')) =
     [Log ConsoleLog (Text (js ''2''))] \<and>
   fst (run ex_os 0 [(''verbose'', Bool False), (''logger'', Fn ConsoleLog), (''command'', Str (js ''ls -la''))]) =
     [Spawn (js ''ls'') [js ''-la''] []]"
proof -
  let ?o = "[(''verbose'', Bool True), (''logger'', Fn ConsoleLog), (''command'', Str (js ''ls -la'')),
       (''onData'', Fn (UserFn 7))]"
  let ?q = "[(''verbose'', Bool False), (''logger'', Fn ConsoleLog), (''command'', Str (js ''ls -la''))]"
  have lg: "get ?o ''logger'' = Fn ConsoleLog" and v: "truthy (get ?o ''verbose'')"
    and c: "get ?o ''command'' = Str (js ''ls -la'')"
    by (simp_all add: get_Cons)
  have tk: "tokenize (Str (js ''ls -la'')) = Ok (js ''ls'', [js ''-la''])"
    by (simp add: tokenize_eval)
  have sp: "spawnProcessOpts ?o = []" "spawnProcessOpts ?q = []"
    by (simp_all add: spawnProcessOpts_def spawnOptsAllowedKeys_def)
  note inst = verbose_logging [OF lg, of ex_os 0]
  have r: "fst (run ex_os 0 ?o) = [Log ConsoleLog (Text (js ''$ ls -la'')), Spawn (js ''ls'') [js ''-la''] []]"
    unfolding run_def sp by (simp add: log_if_verbose_def get_Cons tk str_plus_def js_append [symmetric])
  from inst [of "js ''1''"] v have o: "listener ?o (Stdout (js ''1'')) =
      [Log ConsoleLog (Text (js ''1'')), OnData (UserFn 7) (js ''1'')]"
    by (simp add: get_Cons del: listener.simps)
  from inst [of "js ''2''"] v have e: "listener ?o (Stderr (js ''2'')) = [Log ConsoleLog (Text (js ''2''))]"
    by (simp add: get_Cons get_Nil del: listener.simps)
  have q: "fst (run ex_os 0 ?q) = [Spawn (js ''ls'') [js ''-la''] []]"
    unfolding run_def sp by (simp add: log_if_verbose_def get_Cons tk)
  from lg r o e q show ?thesis
    by blast
qed

text \<open>
  The claim as the specification words it, with the literal command line as the logged
  text, fails: for the verbose command \<^verbatim>\<open>ls\<close> the logger is called with \<^verbatim>\<open>$ ls\<close>, not with \<^verbatim>\<open>ls\<close>.
\<close>

theorem verbose_literal_counterexample:
  "fst (run ex_os 0 [(''verbose'', Bool True), (''logger'', Fn ConsoleLog), (''command'', Str (js ''ls''))]) =
     [Log ConsoleLog (Text (js ''$ ls'')), Spawn (js ''ls'') [] []] \<and>
   Log ConsoleLog (Text (js ''ls'')) \<notin>
     set (fst (run ex_os 0 [(''verbose'', Bool True), (''logger'', Fn ConsoleLog), (''command'', Str (js ''ls''))]))"
proof -
  let ?o = "[(''verbose'', Bool True), (''logger'', Fn ConsoleLog), (''command'', Str (js ''ls''))]"
  have tk: "tokenize (Str (js ''ls'')) = Ok (js ''ls'', [])"
    by (simp add: tokenize_eval)
  have sp: "spawnProcessOpts ?o = []"
    by (simp add: spawnProcessOpts_def spawnOptsAllowedKeys_def)
  have r: "fst (run ex_os 0 ?o) = [Log ConsoleLog (Text (js ''$ ls'')), Spawn (js ''ls'') [] []]"
    unfolding run_def sp by (simp add: log_if_verbose_def get_Cons tk str_plus_def js_append [symmetric])
  show ?thesis
    unfolding r by (simp add: js_def)
qed

section \<open>Invalid input\<close>

lemma default_mode: "get (globalOpts_of c Undefined) ''mode'' \<noteq> Str PARALLEL"
  by (simp add: globalOpts_of_def defaultOpts_def object_eval SEQUENTIAL_def PARALLEL_def js_def)

lemma empty_command_state:
  "runMultiple os c (Str []) Undefined =
     \<lparr>tasks = [\<lparr>promise = Rejected TypeError,
                 opts = resolvedOpts (globalOpts_of c Undefined) (Obj [(''command'', Str [])]),
                 pending = []\<rparr>],
      queue = [], results = [], batch = Rejected TypeError,
      trace = [(0, Dispatch (resolvedOpts (globalOpts_of c Undefined) (Obj [(''command'', Str [])]))),
               (0, Reject TypeError)],
      parallel = False, globalOpts = globalOpts_of c Undefined\<rparr>"
proof -
  let ?ro = "resolvedOpts (globalOpts_of c Undefined) (Obj [(''command'', Str [])])"
  have n: "normalize_commands (Str []) = Some [Obj [(''command'', Str [])]]"
    by (simp add: normalize_commands_def wrap_def)
  have "get ?ro ''verbose'' = Bool False" "get ?ro ''command'' = Str []"
    by (simp_all add: resolvedOpts_def globalOpts_of_def defaultOpts_def DEFAULT_VERBOSE_def object_eval)
  then have r: "run os 0 ?ro = ([Reject TypeError], \<lparr>promise = Rejected TypeError, opts = ?ro, pending = []\<rparr>)"
    by (simp add: run_def log_if_verbose_def tokenize_def match_all_def)
  show ?thesis
    using default_mode [of c] by (simp add: runMultiple_def n seq_next_def dispatch_def r Let_def)
qed

text \<open>
  Claim C7, as the code has it. \<^verbatim>\<open>runMultiple\<close> rejects with \<^verbatim>\<open>'Invalid input'\<close> exactly when the
  \<^verbatim>\<open>commands\<close> argument is neither a string nor a non-null object: when it is \<^verbatim>\<open>undefined\<close>,
  \<^verbatim>\<open>null\<close>, a boolean, a number or a function. The rejection is immediate, and then no
  command is dispatched, nothing is logged and no process is spawned, whatever events are
  scheduled.
\<close>

theorem invalid_input_rejection:
  "(normalize_commands input = None \<longleftrightarrow>
      (case input of Str s \<Rightarrow> False | Obj kvs \<Rightarrow> False | Arr xs \<Rightarrow> False | TypeError \<Rightarrow> False
       | _ \<Rightarrow> True)) \<and>
   (batch (execute os cwd input options schedule) = Rejected (Str (js ''Invalid input'')) \<longleftrightarrow>
      normalize_commands input = None) \<and>
   (normalize_commands input = None \<longrightarrow>
      batch (runMultiple os cwd input options) = Rejected (Str (js ''Invalid input'')) \<and>
      tasks (execute os cwd input options schedule) = [] \<and>
      trace (execute os cwd input options schedule) = [])"
proof (intro conjI impI)
  show "normalize_commands input = None \<longleftrightarrow>
      (case input of Str s \<Rightarrow> False | Obj kvs \<Rightarrow> False | Arr xs \<Rightarrow> False | TypeError \<Rightarrow> False
       | _ \<Rightarrow> True)"
    by (rule normalize_None)
next
  show "batch (execute os cwd input options schedule) = Rejected (Str (js ''Invalid input'')) \<longleftrightarrow>
      normalize_commands input = None"
  proof
    assume b: "batch (execute os cwd input options schedule) = Rejected (Str (js ''Invalid input''))"
    show "normalize_commands input = None"
    proof (rule ccontr)
      assume "normalize_commands input \<noteq> None"
      then obtain cmds where "normalize_commands input = Some cmds"
        by blast
      from inv_rejected [OF execute_inv [OF this] b] show False
        by simp
    qed
  next
    assume "normalize_commands input = None"
    then show "batch (execute os cwd input options schedule) = Rejected (Str (js ''Invalid input''))"
      by (simp add: execute_invalid)
  qed
next
  assume n: "normalize_commands input = None"
  from execute_invalid [OF n, of os cwd options "[]"]
  show "batch (runMultiple os cwd input options) = Rejected (Str (js ''Invalid input''))"
    by (simp add: execute_def)
  from n show "tasks (execute os cwd input options schedule) = []"
    "trace (execute os cwd input options schedule) = []"
    by (simp_all add: execute_invalid)
qed

text \<open>The theorem at the number 6 and at \<^verbatim>\<open>null\<close>, with events scheduled in vain.\<close>

theorem invalid_input_rejection_witness:
  "normalize_commands (Num 6) = None \<and> normalize_commands Null = None \<and>
   batch (execute ex_os (js ''/w'') (Num 6) Undefined [0, 1]) = Rejected (Str (js ''Invalid input'')) \<and>
   trace (execute ex_os (js ''/w'') (Num 6) Undefined [0, 1]) = [] \<and>
   batch (execute ex_os (js ''/w'') Null (ex_options PARALLEL) []) = Rejected (Str (js ''Invalid input'')) \<and>
   trace (execute ex_os (js ''/w'') Null (ex_options PARALLEL) []) = []"
proof -
  have n: "normalize_commands (Num 6) = None" "normalize_commands Null = None"
    by (simp_all add: normalize_commands_def)
  from invalid_input_rejection [of "Num 6" ex_os "js ''/w''" Undefined "[0, 1]"] n(1)
  have a: "batch (execute ex_os (js ''/w'') (Num 6) Undefined [0, 1]) = Rejected (Str (js ''Invalid input''))"
    "trace (execute ex_os (js ''/w'') (Num 6) Undefined [0, 1]) = []"
    by blast+
  from invalid_input_rejection [of Null ex_os "js ''/w''" "ex_options PARALLEL" "[]"] n(2)
  have b: "batch (execute ex_os (js ''/w'') Null (ex_options PARALLEL) []) = Rejected (Str (js ''Invalid input''))"
    "trace (execute ex_os (js ''/w'') Null (ex_options PARALLEL) []) = []"
    by blast+
  from n a b show ?thesis
    by blast
qed

text \<open>
  The claim as the specification words it, with a command string without a token as an
  error of the same kind before which no process is spawned, fails. The empty command string
  is an accepted input, and the batch is rejected with the TypeError thrown in the spawner,
  not with \<^verbatim>\<open>'Invalid input'\<close>. In parallel mode the batch of the command \<^verbatim>\<open>a\<close> and the empty
  command is rejected with that TypeError after the process of \<^verbatim>\<open>a\<close> has been spawned.
\<close>

theorem invalid_input_counterexample:
  "normalize_commands (Str []) = Some [Obj [(''command'', Str [])]] \<and>
   batch (execute ex_os (js ''/w'') (Str []) Undefined []) = Rejected TypeError \<and>
   batch (execute ex_os (js ''/w'') (Str []) Undefined []) \<noteq> Rejected (Str (js ''Invalid input'')) \<and>
   batch (execute ex_os (js ''/w'') (Arr [Str (js ''a''), Str []]) (ex_options PARALLEL) []) =
     Rejected TypeError \<and>
   (0, Spawn (js ''a'') [] [(''cwd'', Str (js ''/tmp''))]) \<in>
     set (trace (execute ex_os (js ''/w'') (Arr [Str (js ''a''), Str []]) (ex_options PARALLEL) []))"
proof -
  let ?c = "js ''/w''"
  have n: "normalize_commands (Str []) = Some [Obj [(''command'', Str [])]]"
    by (simp add: normalize_commands_def wrap_def)
  have b: "batch (execute ex_os ?c (Str []) Undefined []) = Rejected TypeError"
    by (simp add: execute_def empty_command_state)
  have n2: "normalize_commands (Arr [Str (js ''a''), Str []]) =
      Some [Obj [(''command'', Str (js ''a''))], Obj [(''command'', Str [])]]"
    by (simp add: normalize_commands_def wrap_def)
  let ?ra = "[(''cwd'', Str (js ''/tmp'')), (''verbose'', Bool False), (''mode'', Str PARALLEL),
      (''logger'', Fn ConsoleLog), (''command'', Str (js ''a''))]"
  let ?re = "[(''cwd'', Str (js ''/tmp'')), (''verbose'', Bool False), (''mode'', Str PARALLEL),
      (''logger'', Fn ConsoleLog), (''command'', Str [])]"
  have ra: "resolvedOpts (ex_g PARALLEL) (Obj [(''command'', Str (js ''a''))]) = ?ra"
    and re: "resolvedOpts (ex_g PARALLEL) (Obj [(''command'', Str [])]) = ?re"
    by (simp_all add: resolvedOpts_def ex_g_def object_eval)
  have sa: "spawnProcessOpts ?ra = [(''cwd'', Str (js ''/tmp''))]"
    by (simp add: spawnProcessOpts_def spawnOptsAllowedKeys_def get_Cons put_def)
  have runa: "run ex_os 0 ?ra =
      ([Spawn (js ''a'') [] [(''cwd'', Str (js ''/tmp''))]],
       \<lparr>promise = Pending, opts = ?ra, pending = [Stdout (js ''1''), Close (Num 2)]\<rparr>)"
    unfolding run_def sa by (simp add: log_if_verbose_def get_Cons tokenize_a ex_os_def)
  have rune: "run ex_os (Suc 0) ?re =
      ([Reject TypeError], \<lparr>promise = Rejected TypeError, opts = ?re, pending = []\<rparr>)"
    by (simp add: run_def log_if_verbose_def get_Cons tokenize_def match_all_def)
  have st: "execute ex_os ?c (Arr [Str (js ''a''), Str []]) (ex_options PARALLEL) [] =
      \<lparr>tasks = [\<lparr>promise = Pending, opts = ?ra, pending = [Stdout (js ''1''), Close (Num 2)]\<rparr>,
                \<lparr>promise = Rejected TypeError, opts = ?re, pending = []\<rparr>],
       queue = [], results = [], batch = Rejected TypeError,
       trace = [(0, Dispatch ?ra), (0, Spawn (js ''a'') [] [(''cwd'', Str (js ''/tmp''))]),
                (1, Dispatch ?re), (1, Reject TypeError)],
       parallel = True, globalOpts = ex_g PARALLEL\<rparr>"
    by (simp add: execute_def runMultiple_def n2 ex_globalOpts ex_mode dispatch_def ra re runa rune
        promise_all_def Let_def)
  from n b show ?thesis
    unfolding st by simp
qed

end
